theory Spec2Isabelle
  imports Main "HOL-Library.Sublist"
begin

section \<open>Data model\<close>

text \<open>
  The monitored event page yields ticket listings; the change detector, the update step
  of the poller and the fetch pipeline of \<^verbatim>\<open>ticketmaster.service.js\<close> work on them.
  JavaScript values are given the types of the data model: a listing is an object with
  string fields, and a \<open>payload\<close> is a parsed JSON object whose \<^verbatim>\<open>tickets\<close> field is
  either absent (\<open>None\<close>) or an array of listings; the payloads whose field holds
  something else come with the detector below. Record fields keep the source's names;
  where two objects of the source share a field name, the later record prefixes it.
\<close>

record listing =
  sectionRow :: string
  price :: string
  type :: string
  timestamp :: string

record payload =
  tickets :: "listing list option"

text \<open>
  A change record \<^verbatim>\<open>{type: "PRICE_CHANGE", details: {sectionRow, oldPrice, newPrice}}\<close>
  or \<^verbatim>\<open>{type: "NEW_SECTION", details: {sectionRow, price}}\<close>.
\<close>

datatype change =
    PRICE_CHANGE string string string
  | NEW_SECTION string string

text \<open>
  What the program throws: the error of \<open>fetchAvailableTickets\<close> for a URL without an
  event identifier, the error of a navigation that has failed three times, the time-out
  of a wait, the \<^verbatim>\<open>ReferenceError\<close> and the \<^verbatim>\<open>TypeError\<close> of the language, and the
  rejection, for a reason of its own, of a call of the browser or of the file system.
\<close>

datatype error =
    InvalidUrlError | NavigationError | TimeoutError | ReferenceError | TypeError | PageError

record stadium_section =
  section_id :: string
  section_name :: string
  coordinates :: "string option"

record stadium =
  stadiumImage :: "string option"
  layoutData :: "stadium_section list option"

section \<open>Change detector: \<^verbatim>\<open>detectChanges\<close>\<close>

text \<open>
  A JavaScript \<^verbatim>\<open>Map\<close> keeps its entries in insertion order. \<^verbatim>\<open>set\<close> on a key that
  is present replaces the value and leaves the entry where it is; on a new key it appends
  the entry. \<^verbatim>\<open>new Map(pairs)\<close> calls \<^verbatim>\<open>set\<close> for the pairs from left to right.
\<close>

fun Map_set :: "('k \<times> 'v) list \<Rightarrow> 'k \<Rightarrow> 'v \<Rightarrow> ('k \<times> 'v) list" where
  "Map_set [] k v = [(k, v)]"
| "Map_set ((k', v') # m) k v =
     (if k' = k then (k, v) # m else (k', v') # Map_set m k v)"

definition new_Map :: "('k \<times> 'v) list \<Rightarrow> ('k \<times> 'v) list" where
  "new_Map pairs = foldl (\<lambda>m (k, v). Map_set m k v) [] pairs"

definition Map_get :: "('k \<times> 'v) list \<Rightarrow> 'k \<Rightarrow> 'v option" where
  "Map_get m k = map_of m k"

definition Map_has :: "('k \<times> 'v) list \<Rightarrow> 'k \<Rightarrow> bool" where
  "Map_has m k = (k \<in> fst ` set m)"

text \<open>\<^verbatim>\<open>new Map(data.tickets.map((t) => [t.sectionRow, t]))\<close>\<close>

definition ticketMap :: "listing list \<Rightarrow> (string \<times> listing) list" where
  "ticketMap ts = new_Map (map (\<lambda>t. (sectionRow t, t)) ts)"

text \<open>
  The first loop over \<^verbatim>\<open>newTickets\<close>: a price change is pushed when the old map has the
  key and the two prices differ (\<^verbatim>\<open>oldTicket && oldTicket.price !== newTicket.price\<close>).
\<close>

definition priceLoop ::
  "(string \<times> listing) list \<Rightarrow> (string \<times> listing) list \<Rightarrow> change list \<Rightarrow> change list" where
  "priceLoop oldTickets newTickets changes =
     foldl (\<lambda>changes (sectionRow, newTicket).
              (case Map_get oldTickets sectionRow of
                 Some oldTicket \<Rightarrow>
                   if price oldTicket \<noteq> price newTicket
                   then changes @ [PRICE_CHANGE sectionRow (price oldTicket) (price newTicket)]
                   else changes
               | None \<Rightarrow> changes))
           changes newTickets"

text \<open>The second loop: a new section is pushed when the old map lacks the key.\<close>

definition sectionLoop ::
  "(string \<times> listing) list \<Rightarrow> (string \<times> listing) list \<Rightarrow> change list \<Rightarrow> change list" where
  "sectionLoop oldTickets newTickets changes =
     foldl (\<lambda>changes (sectionRow, newTicket).
              if \<not> Map_has oldTickets sectionRow
              then changes @ [NEW_SECTION sectionRow (price newTicket)]
              else changes)
           changes newTickets"

text \<open>
  \<^verbatim>\<open>detectChanges(oldData, newData)\<close>: \<open>None\<close> for \<^verbatim>\<open>oldData\<close> is \<^verbatim>\<open>null\<close> or
  \<^verbatim>\<open>undefined\<close> (the record has no previous network data); the callers pass a
  \<^verbatim>\<open>newData\<close> that they have tested to be truthy.
\<close>

definition detectChanges :: "payload option \<Rightarrow> payload \<Rightarrow> change list" where
  "detectChanges oldData newData =
     (case oldData of
        None \<Rightarrow> []
      | Some od \<Rightarrow>
          (case (tickets od, tickets newData) of
             (Some ots, Some nts) \<Rightarrow>
               (let oldTickets = ticketMap ots;
                    newTickets = ticketMap nts
                in sectionLoop oldTickets newTickets (priceLoop oldTickets newTickets []))
           | _ \<Rightarrow> []))"

subsection \<open>Payloads as the network gives them\<close>

text \<open>
  A network payload is whatever JSON object the site has sent, so its \<^verbatim>\<open>tickets\<close>
  field need not be an array. The detector tests the field for truthiness only
  (\<^verbatim>\<open>if (oldData.tickets && newData.tickets)\<close>): \<open>NoTickets\<close> stands for a field that is
  absent or holds a falsy value (\<^verbatim>\<open>null\<close>, \<^verbatim>\<open>false\<close>, \<^verbatim>\<open>0\<close>, the empty string),
  \<open>NotArray\<close> for a truthy value that is no array (an object, a non-empty string, a
  number, \<^verbatim>\<open>true\<close>), \<open>TicketArray\<close> for an array of listings, the empty one included.
  A value that is no array has no \<^verbatim>\<open>map\<close> method, so the call of \<^verbatim>\<open>.map\<close> on it throws.
\<close>

datatype tickets_field = NoTickets | NotArray | TicketArray "listing list"

record json_payload =
  j_tickets :: tickets_field

definition truthy :: "tickets_field \<Rightarrow> bool" where
  "truthy t = (t \<noteq> NoTickets)"

text \<open>\<^verbatim>\<open>new Map(data.tickets.map((t) => [t.sectionRow, t]))\<close> on any value of the field.\<close>

definition ticketMapOf :: "tickets_field \<Rightarrow> error + (string \<times> listing) list" where
  "ticketMapOf t = (case t of TicketArray ts \<Rightarrow> Inr (ticketMap ts) | _ \<Rightarrow> Inl TypeError)"

text \<open>
  \<^verbatim>\<open>detectChanges\<close> on such payloads: the old map is built first, then the new one, then
  the two loops run.
\<close>

definition detectChangesJson :: "json_payload option \<Rightarrow> json_payload \<Rightarrow> error + change list" where
  "detectChangesJson oldData newData =
     (case oldData of
        None \<Rightarrow> Inr []
      | Some od \<Rightarrow>
          if truthy (j_tickets od) \<and> truthy (j_tickets newData)
          then (case ticketMapOf (j_tickets od) of
                  Inl e \<Rightarrow> Inl e
                | Inr oldTickets \<Rightarrow>
                    (case ticketMapOf (j_tickets newData) of
                       Inl e \<Rightarrow> Inl e
                     | Inr newTickets \<Rightarrow>
                         Inr (sectionLoop oldTickets newTickets
                                (priceLoop oldTickets newTickets []))))
          else Inr [])"

text \<open>
  The payloads of type \<open>payload\<close> are those whose field is absent or an array; on them
  \<open>detectChanges\<close> above is the whole of the function.
\<close>

definition asJson :: "payload \<Rightarrow> json_payload" where
  "asJson p =
     \<lparr>j_tickets = (case tickets p of None \<Rightarrow> NoTickets | Some ts \<Rightarrow> TicketArray ts)\<rparr>"

subsection \<open>What the detector is to emit\<close>

text \<open>
  The description of the result in terms of the two ticket arrays alone: the keys of the
  new snapshot in the order of their first occurrence, and for a key the last listing that
  carries it.
\<close>

fun firstKeys :: "'k list \<Rightarrow> 'k list" where
  "firstKeys [] = []"
| "firstKeys (k # ks) = k # firstKeys (filter (\<lambda>j. j \<noteq> k) ks)"

definition lastListing :: "listing list \<Rightarrow> string \<Rightarrow> listing option" where
  "lastListing ts k =
     (case filter (\<lambda>t. sectionRow t = k) ts of
        [] \<Rightarrow> None
      | x # xs \<Rightarrow> Some (last (x # xs)))"

definition priceChanges :: "listing list \<Rightarrow> listing list \<Rightarrow> change list" where
  "priceChanges ta tb =
     concat (map (\<lambda>k. case (lastListing ta k, lastListing tb k) of
                          (Some a, Some b) \<Rightarrow>
                            if price a \<noteq> price b then [PRICE_CHANGE k (price a) (price b)] else []
                        | _ \<Rightarrow> [])
                 (firstKeys (map sectionRow tb)))"

definition newSections :: "listing list \<Rightarrow> listing list \<Rightarrow> change list" where
  "newSections ta tb =
     concat (map (\<lambda>k. case (lastListing ta k, lastListing tb k) of
                          (None, Some b) \<Rightarrow> [NEW_SECTION k (price b)]
                        | _ \<Rightarrow> [])
                 (firstKeys (map sectionRow tb)))"

section \<open>The update step of the poller and of \<^verbatim>\<open>fetchAndUpdateTickets\<close>\<close>

record metadata =
  lastNetworkData :: "payload option"
  lastSuccessfulFetch :: "int option"
  fetchCount :: nat

record ticketUrl =
  tu_url :: string
  tu_eventId :: string
  lastChecked :: int
  tu_tickets :: "listing list"
  stadium_image :: "string option"
  stadium_layout :: "string option"
  stadium_lastUpdated :: "int option"
  changes :: "change list"
  metadata :: metadata

text \<open>
  \<^verbatim>\<open>xs.slice(-n)\<close>: the start index is \<^verbatim>\<open>max(xs.length - n, 0)\<close>.
\<close>

definition slice_last :: "nat \<Rightarrow> 'a list \<Rightarrow> 'a list" where
  "slice_last n xs = drop (if n < length xs then length xs - n else 0) xs"

text \<open>
  The block under \<^verbatim>\<open>// Track changes\<close>, the same in \<^verbatim>\<open>pollTickets\<close> and in
  \<^verbatim>\<open>fetchAndUpdateTickets\<close>.
\<close>

definition trackChanges :: "ticketUrl \<Rightarrow> payload option \<Rightarrow> ticketUrl" where
  "trackChanges ticketUrl networkData =
     (case networkData of
        None \<Rightarrow> ticketUrl
      | Some nd \<Rightarrow>
          (let newChanges = detectChanges (lastNetworkData (metadata ticketUrl)) nd;
               ticketUrl1 =
                 (if length newChanges > 0
                  then (let pushed = changes ticketUrl @ newChanges
                        in ticketUrl\<lparr>changes :=
                             (if length pushed > 100 then slice_last 100 pushed else pushed)\<rparr>)
                  else ticketUrl)
           in ticketUrl1\<lparr>metadata := (metadata ticketUrl1)\<lparr>lastNetworkData := Some nd\<rparr>\<rparr>))"

text \<open>
  One update of a monitored endpoint from the three fields taken out of the fetch result;
  \<open>date\<close> stands for \<^verbatim>\<open>new Date()\<close>. The stadium of the stored record has the fields
  of the schema of \<^verbatim>\<open>TicketUrl.js\<close>: \<^verbatim>\<open>image\<close>, \<^verbatim>\<open>layout\<close> and \<^verbatim>\<open>lastUpdated\<close>. The
  object assigned to it, \<^verbatim>\<open>{...ticketUrl.stadium, ...stadiumData, lastUpdated: new Date()}\<close>,
  brings the fields \<^verbatim>\<open>stadiumImage\<close> and \<^verbatim>\<open>layoutData\<close> of \<^verbatim>\<open>stadiumData\<close>, which the
  schema does not have and the document does not keep: \<^verbatim>\<open>image\<close> and \<^verbatim>\<open>layout\<close> stay as
  they are and \<^verbatim>\<open>lastUpdated\<close> is set.
\<close>

definition updateTickets ::
  "ticketUrl \<Rightarrow> int \<times> listing list \<times> stadium option \<times> payload option \<Rightarrow> ticketUrl" where
  "updateTickets ticketUrl fetched =
     (case fetched of (date, ticketList, stadiumData, networkData) \<Rightarrow>
        (let t1 = ticketUrl\<lparr>tu_tickets := ticketList, lastChecked := date\<rparr>;
             t2 = (case stadiumData of
                     Some sd \<Rightarrow> t1\<lparr>stadium_lastUpdated := Some date\<rparr>
                   | None \<Rightarrow> t1);
             t3 = trackChanges t2 networkData
         in t3\<lparr>metadata := (metadata t3)\<lparr>lastSuccessfulFetch := Some date,
                                           fetchCount := fetchCount (metadata t3) + 1\<rparr>\<rparr>))"

section \<open>Event identifier\<close>

text \<open>
  \<^verbatim>\<open>url.match(/event\/([A-Z0-9]+)/i)\<close>: the leftmost position at which \<^verbatim>\<open>event/\<close>, in
  any letter case, is followed by at least one letter or digit; the group is the longest
  run of letters and digits from there.
\<close>

definition lowerChar :: "char \<Rightarrow> char" where
  "lowerChar c =
     (case map_of (zip ''ABCDEFGHIJKLMNOPQRSTUVWXYZ'' ''abcdefghijklmnopqrstuvwxyz'') c of
        Some d \<Rightarrow> d
      | None \<Rightarrow> c)"

definition isAlnum :: "char \<Rightarrow> bool" where
  "isAlnum c = (lowerChar c \<in> set ''abcdefghijklmnopqrstuvwxyz0123456789'')"

definition stripEvent :: "string \<Rightarrow> string option" where
  "stripEvent s =
     (if map lowerChar (take 6 s) = ''event/'' then Some (drop 6 s) else None)"

fun matchEventId :: "string \<Rightarrow> string option" where
  "matchEventId [] = None"
| "matchEventId (c # cs) =
     (case stripEvent (c # cs) of
        Some rest \<Rightarrow>
          if takeWhile isAlnum rest \<noteq> [] then Some (takeWhile isAlnum rest)
          else matchEventId cs
      | None \<Rightarrow> matchEventId cs)"

text \<open>
  For the statement of what the match finds: a string that is \<^verbatim>\<open>event/\<close> in some
  letter case, and a URL that has such a string followed by a letter or digit somewhere.
\<close>

definition isEventPrefix :: "string \<Rightarrow> bool" where
  "isEventPrefix ev = (map lowerChar ev = ''event/'')"

definition hasEventSegment :: "string \<Rightarrow> bool" where
  "hasEventSegment url =
     (\<exists>pre ev c post. url = pre @ ev @ c # post \<and> isEventPrefix ev \<and> isAlnum c)"

text \<open>\<^verbatim>\<open>s.includes(sub)\<close>\<close>

primrec str_includes :: "string \<Rightarrow> string \<Rightarrow> bool" where
  "str_includes [] sub = (sub = [])"
| "str_includes (c # cs) sub = (prefix sub (c # cs) \<or> str_includes cs sub)"

section \<open>Network capture: \<^verbatim>\<open>fetchNetworkData\<close>\<close>

text \<open>
  The promise of \<^verbatim>\<open>fetchNetworkData\<close> attaches \<^verbatim>\<open>responseHandler\<close> to the page and
  starts a timer of 10000 ms. What happens next is a sequence of events: a response of the
  page (its URL, the resource type of its request, and its body as \<^verbatim>\<open>response.json()\<close>
  gives it, \<open>None\<close> when that throws or gives no object), or the timer firing. The state
  records whether the handler is attached, whether the timer is pending, the value the
  promise has been resolved with, and how often \<^verbatim>\<open>page.off\<close> has been called.
\<close>

datatype net_event = Response string string "payload option" | TimerFired

record capture =
  listening :: bool
  timerPending :: bool
  settled :: "payload option option"
  offCalls :: nat

definition startCapture :: capture where
  "startCapture = \<lparr>listening = True, timerPending = True, settled = None, offCalls = 0\<rparr>"

text \<open>Resolving a promise that is already resolved does nothing.\<close>

definition resolve :: "payload option \<Rightarrow> capture \<Rightarrow> capture" where
  "resolve v c = (if settled c = None then c\<lparr>settled := Some v\<rparr> else c)"

text \<open>
  The handler on a matching response: \<^verbatim>\<open>clearTimeout(timeoutId); resolve(networkData)\<close>.
  The timer callback: \<^verbatim>\<open>page.off("response", responseHandler); resolve(null)\<close>.
\<close>

fun captureStep :: "string \<Rightarrow> capture \<Rightarrow> net_event \<Rightarrow> capture" where
  "captureStep eventId c (Response url resourceType body) =
     (if listening c \<and> str_includes url eventId \<and> resourceType = ''xhr''
      then (case body of
              Some json \<Rightarrow> resolve (Some json) (c\<lparr>timerPending := False\<rparr>)
            | None \<Rightarrow> c)
      else c)"
| "captureStep eventId c TimerFired =
     (if timerPending c
      then resolve None
             (c\<lparr>listening := False, timerPending := False, offCalls := offCalls c + 1\<rparr>)
      else c)"

text \<open>
  A run of the capture: the responses of the page, then the timer, which fires unless it
  has been cleared.
\<close>

definition runCapture :: "string \<Rightarrow> net_event list \<Rightarrow> capture" where
  "runCapture eventId evs = foldl (captureStep eventId) startCapture (evs @ [TimerFired])"

definition fetchNetworkData :: "string \<Rightarrow> net_event list \<Rightarrow> payload option" where
  "fetchNetworkData eventId evs =
     (case settled (runCapture eventId evs) of Some v \<Rightarrow> v | None \<Rightarrow> None)"

text \<open>
  What holds of the state of a capture at every moment: the handler is attached as long
  as \<^verbatim>\<open>page.off\<close> has not been called, which happens at most once; while the timer is
  pending the handler is attached and the promise open; once the timer is gone the promise
  is resolved; a promise resolved with \<^verbatim>\<open>null\<close> has its handler detached, one resolved
  with a payload has it attached.
\<close>

definition captureInv :: "capture \<Rightarrow> bool" where
  "captureInv c =
     ((listening c \<longleftrightarrow> offCalls c = 0) \<and> offCalls c \<le> 1
      \<and> (timerPending c \<longrightarrow> listening c \<and> settled c = None)
      \<and> (\<not> timerPending c \<longrightarrow> settled c \<noteq> None)
      \<and> (settled c = Some None \<longrightarrow> \<not> listening c)
      \<and> (\<forall>json. settled c = Some (Some json) \<longrightarrow> listening c))"

section \<open>Fetch pipeline: \<^verbatim>\<open>fetchAvailableTickets\<close>\<close>

text \<open>
  The value the function returns is an object of one of two kinds: a result with the
  fields \<^verbatim>\<open>eventId, tickets, stadiumData, networkData\<close> and, on some paths,
  \<^verbatim>\<open>status, reason, botCheck, timestamp\<close> (\<open>None\<close> for a field the object does not
  have), or the parsed network payload that the cache holds.
\<close>

record fetch_result =
  r_eventId :: string
  r_tickets :: "listing list"
  r_stadiumData :: "stadium option"
  r_networkData :: "payload option"
  r_status :: "string option"
  r_reason :: "string option"
  r_botCheck :: "bool option"
  r_timestamp :: "int option"

datatype retval = ResultObject fetch_result | NetworkObject payload

text \<open>
  What the function does to the browser and the file system is kept as a log of effects,
  in the order of the calls.
\<close>

datatype effect =
    Launch | NewPage | SetViewport | SetUserAgent
  | Goto string | CloseOtherTabs | Sleep int
  | Screenshot string | ScreenshotN string nat
  | WaitLoaded | QueryCheckbox | ClickCheckbox | ReadText | PressF5
  | WaitAccept | ClickAccept | Reload | ReadContent
  | ExtractStadium | ListenResponses | ExtractTickets
  | WriteJson fetch_result | Emit fetch_result

record cache_entry =
  entry_data :: payload
  entry_timestamp :: int

text \<open>
  The state of the module and of the world around it: the clock (\<^verbatim>\<open>Date.now()\<close>) and
  the time \<open>elapse e\<close> that a call logged as \<open>e\<close> takes, the two module-level maps
  \<^verbatim>\<open>networkDataCache\<close> and \<^verbatim>\<open>browserCache\<close> (the latter only ever holds the key
  \<^verbatim>\<open>"default"\<close>), and the effect log.
\<close>

record world =
  now :: int
  elapse :: "effect \<Rightarrow> int"
  networkDataCache :: "string \<rightharpoonup> cache_entry"
  browserCache :: bool
  effects :: "effect list"

text \<open>
  The page is not under the program's control: what it shows at each step is an input.
  \<open>gotoOk k\<close> says whether \<^verbatim>\<open>page.goto\<close> succeeds after \<open>k\<close> failures of the
  navigation; for the \<open>k\<close>-th round of the bot check, \<open>loaded k\<close> says whether
  the text \<^verbatim>\<open>Loading...\<close> goes away within the 120 s of \<^verbatim>\<open>waitForFunction\<close>,
  \<open>checkbox k\<close> whether the captcha checkbox is there, and \<open>pageText k\<close> is the text of
  the body. The other fields are the observations of the later steps, in the order of the
  source.

  Any call of the browser or of the file system can also reject for a reason of its own
  (the page has been closed, the execution context has gone with a navigation, the disk is
  full): \<open>rejects e k\<close> says that the call logged as \<open>e\<close> does so. For the calls inside
  the bot check loop \<open>k\<close> is the round, from 1; for the closing of the other tabs in
  the navigation loop it is the number of failures so far; for the calls outside the loops
  \<open>k\<close> is 0. A call
  that rejects outside a \<^verbatim>\<open>try\<close> with a \<^verbatim>\<open>catch\<close> of its own ends
  \<open>fetchAvailableTickets\<close> with that error. \<^verbatim>\<open>captureScreenshot\<close> and
  \<^verbatim>\<open>extractStadiumData\<close> catch their own errors, and so does the navigation loop.
\<close>

record page_env =
  rejects :: "effect \<Rightarrow> nat \<Rightarrow> bool"
  gotoOk :: "nat \<Rightarrow> bool"
  loaded :: "nat \<Rightarrow> bool"
  checkbox :: "nat \<Rightarrow> bool"
  pageText :: "nat \<Rightarrow> string"
  acceptFound :: bool
  loadedAfterAccept :: bool
  currentUrl :: string
  reloadOk :: bool
  urlAfterReload :: string
  contentAfterReload :: string
  checkboxAfterReload :: bool
  loadedAfterBotCheck :: bool
  stadiumAttempt :: "nat \<Rightarrow> stadium option"
  responses :: "net_event list"
  domTickets :: "listing list"

text \<open>A call is logged, and the clock moves on by the time the call takes.\<close>

definition log :: "effect \<Rightarrow> world \<Rightarrow> world" where
  "log e w = w\<lparr>now := now w + elapse w e, effects := effects w @ [e]\<rparr>"

text \<open>\<^verbatim>\<open>await sleep(ms)\<close>: the timer takes \<open>ms\<close>, and what the call takes on top of it.\<close>

definition sleep :: "int \<Rightarrow> world \<Rightarrow> world" where
  "sleep ms w = log (Sleep ms) (w\<lparr>now := now w + ms\<rparr>)"

definition captureScreenshot :: "string \<Rightarrow> world \<Rightarrow> world" where
  "captureScreenshot name w = log (Screenshot name) w"

definition captureScreenshotN :: "string \<Rightarrow> nat \<Rightarrow> world \<Rightarrow> world" where
  "captureScreenshotN name attempt w = log (ScreenshotN name attempt) w"

text \<open>
  \<^verbatim>\<open>getBrowser\<close>: the browser of the cache, or a new one, which is put into the cache
  once \<^verbatim>\<open>puppeteer.launch\<close> has given it.
\<close>

definition getBrowser :: "page_env \<Rightarrow> world \<Rightarrow> error option \<times> world" where
  "getBrowser env w =
     (if browserCache w then (None, w)
      else if rejects env Launch 0 then (Some PageError, log Launch w)
      else (None, (log Launch w)\<lparr>browserCache := True\<rparr>))"

definition maxRetries :: nat where
  "maxRetries = 3"

definition maxAttempts :: nat where
  "maxAttempts = 3"

text \<open>
  The navigation loop \<^verbatim>\<open>while (retryCount < maxRetries && !navigationSuccess)\<close>. A
  failure of \<^verbatim>\<open>page.goto\<close>, or of the closing of the other tabs after it, is caught,
  counted and photographed; the third failure is thrown again, here under the name
  \<open>NavigationError\<close> whatever the error was.
\<close>

function navigate ::
  "page_env \<Rightarrow> string \<Rightarrow> nat \<Rightarrow> bool \<Rightarrow> world \<Rightarrow> error option \<times> world" where
  "navigate env url retryCount navigationSuccess w =
     (if retryCount < maxRetries \<and> \<not> navigationSuccess then
        (let w0 = log (Goto url) w
         in if gotoOk env retryCount \<and> \<not> rejects env CloseOtherTabs retryCount
            then navigate env url retryCount True (sleep 12000 (log CloseOtherTabs w0))
            else (let retryCount' = retryCount + 1;
                      w1 = captureScreenshotN ''navigation_failed_attempt'' retryCount'
                             (if gotoOk env retryCount then log CloseOtherTabs w0 else w0)
                  in if retryCount' = maxRetries then (Some NavigationError, w1)
                     else navigate env url retryCount' False (sleep 2000 w1)))
      else (None, w))"
  by pat_completeness auto
termination
  by (relation "measure (\<lambda>(env, url, retryCount, navigationSuccess, w).
        (maxRetries - retryCount) * 2 + (if navigationSuccess then 0 else 1))")
     (auto simp: maxRetries_def)

definition blockMarker :: string where
  "blockMarker = ''Your Browsing Activity Has Been Paused''"

text \<open>
  The bot check loop \<^verbatim>\<open>while (attempt < maxAttempts && !passed)\<close>. Each round counts
  itself and waits for the page to finish loading (\<^verbatim>\<open>page.waitForFunction\<close>, which
  throws when its time is up), pauses and takes a screenshot. Then it asks the page for
  the checkbox (\<^verbatim>\<open>page.$\<close>); if there is one it clicks it (\<^verbatim>\<open>checkbox.click()\<close>) and
  goes on to the next round; else it reads the text of the body (\<^verbatim>\<open>page.evaluate\<close>),
  and if that is the block page it presses F5 (\<^verbatim>\<open>page.keyboard.press\<close>) and goes on to
  the next round; else it sets \<^verbatim>\<open>passed\<close>. None of the five calls of the page is inside
  a \<^verbatim>\<open>try\<close> of the loop, so a rejection of any of them ends the loop with that error. The
  result carries \<^verbatim>\<open>passed\<close> or the error thrown, the final value of \<^verbatim>\<open>attempt\<close>, which
  is the number of rounds run, and the world.
\<close>

function botGate ::
  "page_env \<Rightarrow> bool \<Rightarrow> nat \<Rightarrow> world \<Rightarrow> (error + bool) \<times> nat \<times> world" where
  "botGate env passed attempt w =
     (if attempt < maxAttempts \<and> \<not> passed then
        (let attempt' = attempt + 1;
             w0 = log WaitLoaded w
         in if rejects env WaitLoaded attempt' then (Inl PageError, attempt', w0)
            else if \<not> loaded env attempt' then (Inl TimeoutError, attempt', w0)
            else
              (let w1 = log QueryCheckbox
                          (captureScreenshotN ''after_full_load_attempt'' attempt'
                             (sleep 2000 w0))
               in if rejects env QueryCheckbox attempt' then (Inl PageError, attempt', w1)
                  else if checkbox env attempt'
                  then (let w2 = log ClickCheckbox w1
                        in if rejects env ClickCheckbox attempt'
                           then (Inl PageError, attempt', w2)
                           else botGate env passed attempt'
                                  (captureScreenshotN ''after_bot_checkbox_click_attempt''
                                     attempt' (sleep 4000 w2)))
                  else
                    (let w2 = log ReadText w1
                     in if rejects env ReadText attempt' then (Inl PageError, attempt', w2)
                        else if str_includes (pageText env attempt') blockMarker
                        then (let w3 = log PressF5 w2
                              in if rejects env PressF5 attempt'
                                 then (Inl PageError, attempt', w3)
                                 else botGate env passed attempt'
                                        (captureScreenshotN ''after_block_reload_attempt''
                                           attempt' (sleep 4000 w3)))
                        else botGate env True attempt' w2)))
      else (Inr passed, attempt, w))"
  by pat_completeness auto
termination
  by (relation "measure (\<lambda>(env, passed, attempt, w). maxAttempts - attempt)")
     (auto simp: maxAttempts_def)

text \<open>
  The world after the wait, the pause, the screenshot and the query for the checkbox that
  open a round, and the worlds after the click and after the key press that send the loop
  into its next round.
\<close>

definition afterLoad :: "nat \<Rightarrow> world \<Rightarrow> world" where
  "afterLoad k w =
     log QueryCheckbox
       (captureScreenshotN ''after_full_load_attempt'' k (sleep 2000 (log WaitLoaded w)))"

definition afterClick :: "nat \<Rightarrow> world \<Rightarrow> world" where
  "afterClick k w =
     captureScreenshotN ''after_bot_checkbox_click_attempt'' k
       (sleep 4000 (log ClickCheckbox (afterLoad k w)))"

definition afterReload :: "nat \<Rightarrow> world \<Rightarrow> world" where
  "afterReload k w =
     captureScreenshotN ''after_block_reload_attempt'' k
       (sleep 4000 (log PressF5 (log ReadText (afterLoad k w))))"

text \<open>
  For the statement of what the loop ends with: a round in which one of the five calls of
  the page rejects, and a page none of whose calls in the loop rejects or runs out of
  time.
\<close>

definition roundRejects :: "page_env \<Rightarrow> nat \<Rightarrow> bool" where
  "roundRejects env k =
     (rejects env WaitLoaded k \<or> rejects env QueryCheckbox k \<or> rejects env ClickCheckbox k
      \<or> rejects env ReadText k \<or> rejects env PressF5 k)"

definition answers :: "page_env \<Rightarrow> bool" where
  "answers env = (\<forall>k. loaded env k \<and> \<not> roundRejects env k)"

text \<open>
  The wait for the \<^verbatim>\<open>Accept & Continue\<close> button, the click, and the wait for the page
  to finish loading; both waits throw when their time is up.
\<close>

definition acceptAndContinue :: "page_env \<Rightarrow> world \<Rightarrow> error option \<times> world" where
  "acceptAndContinue env w =
     (let w1 = log WaitAccept w
      in if rejects env WaitAccept 0 then (Some PageError, w1)
         else if \<not> acceptFound env then (Some TimeoutError, w1)
         else
           (let w2 = log ClickAccept (captureScreenshot ''accept_and_continue_modal'' w1)
            in if rejects env ClickAccept 0 then (Some PageError, w2)
               else
                 (let w3 = log WaitLoaded w2
                  in if rejects env WaitLoaded 0 then (Some PageError, w3)
                     else if \<not> loadedAfterAccept env then (Some TimeoutError, w3)
                     else (None, captureScreenshot ''full_page_loaded_after_accept'' w3))))"

text \<open>
  The identifier \<^verbatim>\<open>pageContent\<close> is used in the page validation and declared nowhere:
  neither in the function, nor in the module, nor as a global. The file is an ECMAScript
  module (it has \<^verbatim>\<open>import\<close> and \<^verbatim>\<open>export\<close>), so its code is strict: reading an
  undeclared identifier throws a \<^verbatim>\<open>ReferenceError\<close>, and so does assigning to one,
  after the right-hand side has been evaluated.
\<close>

definition pageContent_read :: "error + string" where
  "pageContent_read = Inl ReferenceError"

definition pageContent_assign :: "string \<Rightarrow> error + string" where
  "pageContent_assign v = Inl ReferenceError"

definition botPhrases :: "string list" where
  "botPhrases = [''verify you are human'', ''extra protections'', ''recaptcha'',
                 ''your browsing activity has been unusual'']"

definition botPhraseTest :: "string \<Rightarrow> bool" where
  "botPhraseTest content = list_ex (str_includes (map lowerChar content)) botPhrases"

text \<open>
  \<^verbatim>\<open>currentUrl.includes(`/event/${eventId}`) && !/.../i.test(pageContent)\<close>: the second
  operand, and with it the reading of \<^verbatim>\<open>pageContent\<close>, is evaluated only when the first
  is true.
\<close>

definition isRealEventPage :: "string \<Rightarrow> string \<Rightarrow> error + string \<Rightarrow> error + bool" where
  "isRealEventPage url eventId content =
     (if str_includes url (''/event/'' @ eventId)
      then (case content of
              Inl e \<Rightarrow> Inl e
            | Inr text \<Rightarrow> Inr (\<not> botPhraseTest text))
      else Inr False)"

text \<open>
  The validation of the page: the first test, and when it fails a screenshot, a reload
  (which throws when its 30 s are up), a pause, and the second test on the new URL and
  the content of the page (\<^verbatim>\<open>page.content()\<close>) assigned to \<^verbatim>\<open>pageContent\<close>.
\<close>

definition validatePage :: "page_env \<Rightarrow> string \<Rightarrow> world \<Rightarrow> (error + bool) \<times> world" where
  "validatePage env eventId w =
     (case isRealEventPage (currentUrl env) eventId pageContent_read of
        Inl e \<Rightarrow> (Inl e, w)
      | Inr True \<Rightarrow> (Inr True, w)
      | Inr False \<Rightarrow>
          (let w1 = log Reload (captureScreenshot ''not_real_event_first_load'' w)
           in if rejects env Reload 0 then (Inl PageError, w1)
              else if \<not> reloadOk env then (Inl TimeoutError, w1)
              else
                (let w2 = log ReadContent (sleep 7000 w1)
                 in if rejects env ReadContent 0 then (Inl PageError, w2)
                    else
                      (case pageContent_assign (contentAfterReload env) of
                         Inl e \<Rightarrow> (Inl e, w2)
                       | Inr text \<Rightarrow>
                           (isRealEventPage (urlAfterReload env) eventId (Inr text), w2)))))"

text \<open>
  The last attempt when the page is still not the event page: a screenshot, and a click
  on the checkbox if it is there. The block is a \<^verbatim>\<open>try\<close> whose \<^verbatim>\<open>catch\<close> only logs, and
  \<^verbatim>\<open>realEventPage\<close> is not computed again after it. Here \<open>checkboxAfterReload\<close> says
  that \<^verbatim>\<open>page.$\<close> gives the checkbox and \<open>loadedAfterBotCheck\<close> that the wait comes
  back: a rejection of either call is caught and leaves what a missing checkbox or a wait
  out of time leaves, and a rejection of the click is caught before the pause.
\<close>

definition lastResort :: "page_env \<Rightarrow> world \<Rightarrow> world" where
  "lastResort env w =
     (let w1 = log QueryCheckbox (captureScreenshot ''not_real_event_after_reload'' w)
      in if checkboxAfterReload env
         then (let w2 = log ClickCheckbox w1
               in if rejects env ClickCheckbox 0 then w2
                  else
                    (let w3 = log WaitLoaded
                                (captureScreenshot ''after_bot_checkbox_click'' (sleep 4000 w2))
                     in if loadedAfterBotCheck env
                        then captureScreenshot ''full_page_loaded_after_bot_check'' w3
                        else w3))
         else w1)"

definition failedResult :: "string \<Rightarrow> fetch_result" where
  "failedResult eventId =
     \<lparr>r_eventId = eventId, r_tickets = [], r_stadiumData = None, r_networkData = None,
      r_status = Some ''failed'', r_reason = Some ''Bot check or block page not passed'',
      r_botCheck = None, r_timestamp = None\<rparr>"

definition botCheckResult :: "string \<Rightarrow> fetch_result" where
  "botCheckResult eventId =
     \<lparr>r_eventId = eventId, r_tickets = [], r_stadiumData = None, r_networkData = None,
      r_status = None, r_reason = None, r_botCheck = Some True, r_timestamp = None\<rparr>"

definition emptyResult :: "string \<Rightarrow> fetch_result" where
  "emptyResult eventId =
     \<lparr>r_eventId = eventId, r_tickets = [], r_stadiumData = None, r_networkData = None,
      r_status = None, r_reason = None, r_botCheck = None, r_timestamp = None\<rparr>"

text \<open>
  The extraction of the stadium with retries,
  \<^verbatim>\<open>while (retryCount < maxRetries && !stadiumData)\<close>; \<^verbatim>\<open>extractStadiumData\<close> gives
  \<^verbatim>\<open>null\<close> when it has caught an error.
\<close>

function extractStadiumLoop ::
  "page_env \<Rightarrow> nat \<Rightarrow> stadium option \<Rightarrow> world \<Rightarrow> stadium option \<times> world" where
  "extractStadiumLoop env retryCount stadiumData w =
     (if retryCount < maxRetries \<and> stadiumData = None then
        (case stadiumAttempt env retryCount of
           None \<Rightarrow>
             extractStadiumLoop env (retryCount + 1) None (sleep 2000 (log ExtractStadium w))
         | Some sd \<Rightarrow> extractStadiumLoop env retryCount (Some sd) (log ExtractStadium w))
      else (stadiumData, w))"
  by pat_completeness auto
termination
  by (relation "measure (\<lambda>(env, retryCount, stadiumData, w).
        (maxRetries - retryCount) * 2 + (if stadiumData = None then 1 else 0))")
     (auto simp: maxRetries_def)

definition hasLayout :: "stadium option \<Rightarrow> bool" where
  "hasLayout stadiumData =
     (case stadiumData of
        None \<Rightarrow> False
      | Some sd \<Rightarrow> (case layoutData sd of None \<Rightarrow> False | Some l \<Rightarrow> l \<noteq> []))"

text \<open>
  The end of the function, from the test for empty data on: the write to the cache
  (\<^verbatim>\<open>networkDataCache.set(eventId, {data: networkData, timestamp: Date.now()})\<close>, only
  when there is network data), the result object, the JSON file, the time stamp, the
  event, and the visit to the IP service with the reading of its text.
\<close>

definition ipService :: string where
  "ipService = ''https://api.ipify.org''"

definition finishFetch ::
  "page_env \<Rightarrow> string \<Rightarrow> listing list \<Rightarrow> stadium option \<Rightarrow> payload option \<Rightarrow> world \<Rightarrow>
     (error + retval) \<times> world" where
  "finishFetch env eventId ticketList stadiumData networkData w =
     (if \<not> hasLayout stadiumData \<or> ticketList = []
      then (Inr (ResultObject (emptyResult eventId)), w)
      else
        (let w1 = (case networkData of
                     Some nd \<Rightarrow>
                       w\<lparr>networkDataCache := (networkDataCache w)
                            (eventId \<mapsto> \<lparr>entry_data = nd, entry_timestamp = now w\<rparr>)\<rparr>
                   | None \<Rightarrow> w);
             result = \<lparr>r_eventId = eventId, r_tickets = ticketList,
                       r_stadiumData = stadiumData, r_networkData = networkData,
                       r_status = None, r_reason = None, r_botCheck = None,
                       r_timestamp = None\<rparr>;
             w2 = log (WriteJson result) w1
         in if rejects env (WriteJson result) 0 then (Inl PageError, w2)
            else
              (let result' = result\<lparr>r_timestamp := Some (now w2)\<rparr>;
                   w3 = log (Goto ipService) (log (Emit result') w2)
               in if rejects env (Goto ipService) 0 then (Inl PageError, w3)
                  else
                    (let w4 = log ReadText w3
                     in if rejects env ReadText 0 then (Inl PageError, w4)
                        else (Inr (ResultObject result'), w4)))))"

text \<open>
  The wait for the network data: the promise of \<^verbatim>\<open>fetchNetworkData\<close> is resolved by a
  matching response, or with \<^verbatim>\<open>null\<close> by its timer, 10000 ms after the start.
\<close>

definition awaitCapture :: "payload option \<Rightarrow> world \<Rightarrow> world" where
  "awaitCapture networkData w =
     (case networkData of
        Some json \<Rightarrow> log ListenResponses w
      | None \<Rightarrow> log ListenResponses (w\<lparr>now := now w + 10000\<rparr>))"

definition extractData :: "page_env \<Rightarrow> string \<Rightarrow> world \<Rightarrow> (error + retval) \<times> world" where
  "extractData env eventId w =
     (case extractStadiumLoop env 0 None w of
        (stadiumData, w1) \<Rightarrow>
          (let networkData = fetchNetworkData eventId (responses env);
               w2 = awaitCapture networkData w1;
               ticketList = domTickets env;
               w3 = log ExtractTickets w2
           in if rejects env ExtractTickets 0 then (Inl PageError, w3)
              else finishFetch env eventId ticketList stadiumData networkData w3))"

text \<open>
  The body of the \<^verbatim>\<open>try\<close>. Its \<^verbatim>\<open>catch\<close> throws the error again and its \<^verbatim>\<open>finally\<close>
  only logs, so an error of a step is the error of the function.
\<close>

definition scrape :: "page_env \<Rightarrow> string \<Rightarrow> string \<Rightarrow> world \<Rightarrow> (error + retval) \<times> world" where
  "scrape env url eventId w =
     (if rejects env SetViewport 0 then (Inl PageError, log SetViewport w)
      else if rejects env SetUserAgent 0
      then (Inl PageError, log SetUserAgent (log SetViewport w))
      else
        (case navigate env url 0 False (log SetUserAgent (log SetViewport w)) of
           (Some err, w1) \<Rightarrow> (Inl err, w1)
         | (None, w1) \<Rightarrow>
             (case botGate env False 0 w1 of
                (Inl err, attempt, w2) \<Rightarrow> (Inl err, w2)
              | (Inr False, attempt, w2) \<Rightarrow>
                  (Inr (ResultObject (failedResult eventId)),
                   captureScreenshot ''final_failed_status'' w2)
              | (Inr True, attempt, w2) \<Rightarrow>
                  (case acceptAndContinue env w2 of
                     (Some err, w3) \<Rightarrow> (Inl err, w3)
                   | (None, w3) \<Rightarrow>
                       (case validatePage env eventId w3 of
                          (Inl err, w4) \<Rightarrow> (Inl err, w4)
                        | (Inr False, w4) \<Rightarrow>
                            (Inr (ResultObject (botCheckResult eventId)), lastResort env w4)
                        | (Inr True, w4) \<Rightarrow> extractData env eventId w4)))))"

text \<open>
  The look into the cache: an entry for the identifier whose age
  \<^verbatim>\<open>Date.now() - cachedData.timestamp\<close> is below 5000 gives \<^verbatim>\<open>cachedData.data\<close>.
\<close>

definition cacheGet :: "world \<Rightarrow> string \<Rightarrow> payload option" where
  "cacheGet w eventId =
     (case networkDataCache w eventId of
        Some cachedData \<Rightarrow>
          if now w - entry_timestamp cachedData < 5000 then Some (entry_data cachedData)
          else None
      | None \<Rightarrow> None)"

text \<open>
  What the function does once it has an identifier and no fresh entry of the cache: it gets
  the browser and opens a page, both before the \<^verbatim>\<open>try\<close>, and runs its body.
\<close>

definition openAndScrape ::
  "page_env \<Rightarrow> string \<Rightarrow> string \<Rightarrow> world \<Rightarrow> (error + retval) \<times> world" where
  "openAndScrape env url eventId w =
     (case getBrowser env w of
        (Some err, w1) \<Rightarrow> (Inl err, w1)
      | (None, w1) \<Rightarrow>
          if rejects env NewPage 0 then (Inl PageError, log NewPage w1)
          else scrape env url eventId (log NewPage w1))"

definition fetchAvailableTickets ::
  "page_env \<Rightarrow> string \<Rightarrow> world \<Rightarrow> (error + retval) \<times> world" where
  "fetchAvailableTickets env url w =
     (case matchEventId url of
        None \<Rightarrow> (Inl InvalidUrlError, w)
      | Some eventId \<Rightarrow>
          (case cacheGet w eventId of
             Some cached \<Rightarrow> (Inr (NetworkObject cached), w)
           | None \<Rightarrow> openAndScrape env url eventId w))"

section \<open>The change detector on a store of objects\<close>

text \<open>
  In the program the snapshots, their ticket arrays and the listings are objects that the
  caller and the detector share by reference, and an object can be changed in place. To
  say what the detector changes, the objects are put into a store: a list of cells, an
  address being an index into it. A new object is appended; a write replaces a cell. The
  detector allocates the array \<^verbatim>\<open>changes\<close>, the arrays of pairs that \<^verbatim>\<open>map\<close> builds, the
  two \<^verbatim>\<open>Map\<close>s and the change records, and it writes to the maps (\<^verbatim>\<open>set\<close>) and to
  \<^verbatim>\<open>changes\<close> (\<^verbatim>\<open>push\<close>). A read of an address that holds no object of the expected
  kind stands for the \<^verbatim>\<open>TypeError\<close> of the program; the result is then \<open>None\<close>.
\<close>

type_synonym addr = nat

datatype cell =
    ListingCell listing
  | PayloadCell "addr option"
  | ArrayCell "addr list"
  | PairCell string addr
  | MapCell "(string \<times> addr) list"
  | ChangeCell change

type_synonym store = "cell list"

definition alloc :: "cell \<Rightarrow> store \<Rightarrow> addr \<times> store" where
  "alloc c h = (length h, h @ [c])"

definition load :: "store \<Rightarrow> addr \<Rightarrow> cell option" where
  "load h a = (if a < length h then Some (h ! a) else None)"

definition overwrite :: "addr \<Rightarrow> cell \<Rightarrow> store \<Rightarrow> store" where
  "overwrite a c h = h[a := c]"

text \<open>\<^verbatim>\<open>tickets.map((t) => [t.sectionRow, t])\<close>: one new pair for each listing.\<close>

fun pairsOf :: "store \<Rightarrow> addr list \<Rightarrow> addr list option \<times> store" where
  "pairsOf h [] = (Some [], h)"
| "pairsOf h (t # ts) =
     (case load h t of
        Some (ListingCell l) \<Rightarrow>
          (case alloc (PairCell (sectionRow l) t) h of
             (p, h1) \<Rightarrow>
               (case pairsOf h1 ts of
                  (Some ps, h2) \<Rightarrow> (Some (p # ps), h2)
                | (None, h2) \<Rightarrow> (None, h2)))
      | _ \<Rightarrow> (None, h))"

text \<open>The constructor of \<^verbatim>\<open>Map\<close> calls \<^verbatim>\<open>set\<close> on the new map for each pair.\<close>

fun fillMap :: "store \<Rightarrow> addr \<Rightarrow> addr list \<Rightarrow> bool \<times> store" where
  "fillMap h m [] = (True, h)"
| "fillMap h m (p # ps) =
     (case (load h m, load h p) of
        (Some (MapCell es), Some (PairCell k v)) \<Rightarrow>
          fillMap (overwrite m (MapCell (Map_set es k v)) h) m ps
      | _ \<Rightarrow> (False, h))"

definition ticketMap_h :: "store \<Rightarrow> addr \<Rightarrow> addr option \<times> store" where
  "ticketMap_h h arr =
     (case load h arr of
        Some (ArrayCell ts) \<Rightarrow>
          (case pairsOf h ts of
             (Some ps, h1) \<Rightarrow>
               (case alloc (ArrayCell ps) h1 of
                  (pairs, h2) \<Rightarrow>
                    (case alloc (MapCell []) h2 of
                       (m, h3) \<Rightarrow>
                         (case fillMap h3 m ps of
                            (True, h4) \<Rightarrow> (Some m, h4)
                          | (False, h4) \<Rightarrow> (None, h4))))
           | (None, h1) \<Rightarrow> (None, h1))
      | _ \<Rightarrow> (None, h))"

text \<open>\<^verbatim>\<open>changes.push(record)\<close>: a new record, and a write to the array.\<close>

definition push :: "addr \<Rightarrow> change \<Rightarrow> store \<Rightarrow> bool \<times> store" where
  "push arr c h =
     (case load h arr of
        Some (ArrayCell xs) \<Rightarrow>
          (case alloc (ChangeCell c) h of
             (a, h1) \<Rightarrow> (True, overwrite arr (ArrayCell (xs @ [a])) h1))
      | _ \<Rightarrow> (False, h))"

fun priceLoop_h ::
  "store \<Rightarrow> (string \<times> addr) list \<Rightarrow> addr \<Rightarrow> (string \<times> addr) list \<Rightarrow> bool \<times> store" where
  "priceLoop_h h oldTickets changesArr [] = (True, h)"
| "priceLoop_h h oldTickets changesArr ((k, n) # es) =
     (case Map_get oldTickets k of
        None \<Rightarrow> priceLoop_h h oldTickets changesArr es
      | Some ot \<Rightarrow>
          (case (load h ot, load h n) of
             (Some (ListingCell oldTicket), Some (ListingCell newTicket)) \<Rightarrow>
               if price oldTicket \<noteq> price newTicket
               then (case push changesArr
                            (PRICE_CHANGE k (price oldTicket) (price newTicket)) h of
                       (True, h1) \<Rightarrow> priceLoop_h h1 oldTickets changesArr es
                     | (False, h1) \<Rightarrow> (False, h1))
               else priceLoop_h h oldTickets changesArr es
           | _ \<Rightarrow> (False, h)))"

fun sectionLoop_h ::
  "store \<Rightarrow> (string \<times> addr) list \<Rightarrow> addr \<Rightarrow> (string \<times> addr) list \<Rightarrow> bool \<times> store" where
  "sectionLoop_h h oldTickets changesArr [] = (True, h)"
| "sectionLoop_h h oldTickets changesArr ((k, n) # es) =
     (if \<not> Map_has oldTickets k
      then (case load h n of
              Some (ListingCell newTicket) \<Rightarrow>
                (case push changesArr (NEW_SECTION k (price newTicket)) h of
                   (True, h1) \<Rightarrow> sectionLoop_h h1 oldTickets changesArr es
                 | (False, h1) \<Rightarrow> (False, h1))
            | _ \<Rightarrow> (False, h))
      else sectionLoop_h h oldTickets changesArr es)"

definition entriesOf :: "store \<Rightarrow> addr \<Rightarrow> (string \<times> addr) list option" where
  "entriesOf h m = (case load h m of Some (MapCell es) \<Rightarrow> Some es | _ \<Rightarrow> None)"

text \<open>
  \<^verbatim>\<open>detectChanges\<close> on the store: the arguments are the addresses of the two payloads
  (\<open>None\<close> for an \<^verbatim>\<open>oldData\<close> that is \<^verbatim>\<open>null\<close>); the result is the address of the array
  that is returned, and the store after the call.
\<close>

definition detectChanges_h :: "store \<Rightarrow> addr option \<Rightarrow> addr \<Rightarrow> addr option \<times> store" where
  "detectChanges_h h oldData newData =
     (case oldData of
        None \<Rightarrow> (case alloc (ArrayCell []) h of (r, h1) \<Rightarrow> (Some r, h1))
      | Some od \<Rightarrow>
          (case alloc (ArrayCell []) h of
             (changesArr, h1) \<Rightarrow>
               (case (load h1 od, load h1 newData) of
                  (Some (PayloadCell (Some ota)), Some (PayloadCell (Some nta))) \<Rightarrow>
                    (case ticketMap_h h1 ota of
                       (None, h2) \<Rightarrow> (None, h2)
                     | (Some oldTickets, h2) \<Rightarrow>
                         (case ticketMap_h h2 nta of
                            (None, h3) \<Rightarrow> (None, h3)
                          | (Some newTickets, h3) \<Rightarrow>
                              (case (entriesOf h3 oldTickets, entriesOf h3 newTickets) of
                                 (Some oes, Some nes) \<Rightarrow>
                                   (case priceLoop_h h3 oes changesArr nes of
                                      (False, h4) \<Rightarrow> (None, h4)
                                    | (True, h4) \<Rightarrow>
                                        (case sectionLoop_h h4 oes changesArr nes of
                                           (False, h5) \<Rightarrow> (None, h5)
                                         | (True, h5) \<Rightarrow> (Some changesArr, h5)))
                               | _ \<Rightarrow> (None, h3))))
                | (Some (PayloadCell _), Some (PayloadCell _)) \<Rightarrow> (Some changesArr, h1)
                | _ \<Rightarrow> (None, h1))))"

text \<open>Reading values back from the store.\<close>

fun listingsAt :: "store \<Rightarrow> addr list \<Rightarrow> listing list option" where
  "listingsAt h [] = Some []"
| "listingsAt h (a # as) =
     (case (load h a, listingsAt h as) of
        (Some (ListingCell l), Some ls) \<Rightarrow> Some (l # ls)
      | _ \<Rightarrow> None)"

definition payloadAt :: "store \<Rightarrow> addr \<Rightarrow> payload option" where
  "payloadAt h a =
     (case load h a of
        Some (PayloadCell None) \<Rightarrow> Some \<lparr>tickets = None\<rparr>
      | Some (PayloadCell (Some arr)) \<Rightarrow>
          (case load h arr of
             Some (ArrayCell ts) \<Rightarrow>
               (case listingsAt h ts of
                  Some ls \<Rightarrow> Some \<lparr>tickets = Some ls\<rparr>
                | None \<Rightarrow> None)
           | _ \<Rightarrow> None)
      | _ \<Rightarrow> None)"

fun changesAt :: "store \<Rightarrow> addr list \<Rightarrow> change list option" where
  "changesAt h [] = Some []"
| "changesAt h (a # as) =
     (case (load h a, changesAt h as) of
        (Some (ChangeCell c), Some cs) \<Rightarrow> Some (c # cs)
      | _ \<Rightarrow> None)"

definition changeArrayAt :: "store \<Rightarrow> addr \<Rightarrow> change list option" where
  "changeArrayAt h a =
     (case load h a of Some (ArrayCell xs) \<Rightarrow> changesAt h xs | _ \<Rightarrow> None)"

text \<open>
  \<open>keeps n h h'\<close>: the store \<open>h'\<close> is at least as long as \<open>h\<close> and has the same first
  \<open>n\<close> cells.
\<close>

definition keeps :: "nat \<Rightarrow> store \<Rightarrow> store \<Rightarrow> bool" where
  "keeps n h h' = (length h \<le> length h' \<and> take n h' = take n h)"

text \<open>
  For the comparison of the detector on the store with \<open>detectChanges\<close>: the pairs at a
  list of addresses, the listing at an address, the entries of a map with each address
  replaced by the listing it holds, a map whose addresses all hold listings, and two
  stores that agree on every object of the first except the one at \<open>ch\<close>.
\<close>

fun pairsAt :: "store \<Rightarrow> addr list \<Rightarrow> (string \<times> addr) list option" where
  "pairsAt h [] = Some []"
| "pairsAt h (p # ps) =
     (case (load h p, pairsAt h ps) of
        (Some (PairCell k v), Some kvs) \<Rightarrow> Some ((k, v) # kvs)
      | _ \<Rightarrow> None)"

definition listingAt :: "store \<Rightarrow> addr \<Rightarrow> listing option" where
  "listingAt h a = (case load h a of Some (ListingCell l) \<Rightarrow> Some l | _ \<Rightarrow> None)"

definition entryListings :: "store \<Rightarrow> (string \<times> addr) list \<Rightarrow> (string \<times> listing) list" where
  "entryListings h es = map (\<lambda>(k, a). (k, the (listingAt h a))) es"

definition listed :: "store \<Rightarrow> (string \<times> addr) list \<Rightarrow> bool" where
  "listed h es = list_all (\<lambda>(k, a). listingAt h a \<noteq> None) es"

definition sameExcept :: "addr \<Rightarrow> store \<Rightarrow> store \<Rightarrow> bool" where
  "sameExcept ch h h' = (\<forall>a x. a \<noteq> ch \<longrightarrow> load h a = Some x \<longrightarrow> load h' a = Some x)"

section \<open>Concrete inputs\<close>

text \<open>
  The inputs at which the theorems below are evaluated: the event page of the repository's
  own test run, a page that lets the visitor through, a page that shows the captcha
  checkbox every time, pages that end up somewhere else, and a world in which nothing has
  happened yet and every call takes 150 ms.
\<close>

definition eventUrl :: string where
  "eventUrl = ''https://www.ticketmaster.com/denver-broncos-vs-tennessee-titans-denver-colorado-09-07-2025/event/1E00625CD153457B''"

definition homeUrl :: string where
  "homeUrl = ''https://www.ticketmaster.com/''"

definition world0 :: world where
  "world0 = \<lparr>now = 1000000, elapse = (\<lambda>e. 150), networkDataCache = Map.empty,
              browserCache = False, effects = []\<rparr>"

definition listingA :: listing where
  "listingA = \<lparr>sectionRow = ''Sec 101 Row A'', price = ''$50'', type = ''Verified Resale Ticket'',
               timestamp = ''2025-09-01T10:00:00.000Z''\<rparr>"

definition listingB :: listing where
  "listingB = \<lparr>sectionRow = ''Sec 102 Row B'', price = ''$40'', type = ''Verified Resale Ticket'',
               timestamp = ''2025-09-01T10:00:00.000Z''\<rparr>"

definition payload0 :: payload where
  "payload0 = \<lparr>tickets = Some [listingA]\<rparr>"

text \<open>
  Two payloads as the network gives them: one without a \<^verbatim>\<open>tickets\<close> field, and one
  whose \<^verbatim>\<open>tickets\<close> field holds an object that is no array.
\<close>

definition absentPayload :: json_payload where
  "absentPayload = \<lparr>j_tickets = NoTickets\<rparr>"

definition opaquePayload :: json_payload where
  "opaquePayload = \<lparr>j_tickets = NotArray\<rparr>"

definition stadium0 :: stadium where
  "stadium0 = \<lparr>stadiumImage = Some ''<svg data-bdd=venue-map></svg>'',
               layoutData = Some [\<lparr>section_id = ''s101'', section_name = ''Sec 101'',
                                   coordinates = None\<rparr>]\<rparr>"

definition openPage :: page_env where
  "openPage =
     \<lparr>rejects = (\<lambda>e k. False), gotoOk = (\<lambda>k. True), loaded = (\<lambda>k. True), checkbox = (\<lambda>k. False),
      pageText = (\<lambda>k. ''Denver Broncos vs. Tennessee Titans''),
      acceptFound = True, loadedAfterAccept = True,
      currentUrl = eventUrl, reloadOk = True, urlAfterReload = eventUrl,
      contentAfterReload = ''<html><body>Denver Broncos vs. Tennessee Titans</body></html>'',
      checkboxAfterReload = False, loadedAfterBotCheck = True,
      stadiumAttempt = (\<lambda>k. Some stadium0),
      responses = [Response ''https://www.ticketmaster.com/api/quickpicks/1E00625CD153457B''
                     ''xhr'' (Some payload0)],
      domTickets = [listingA, listingB]\<rparr>"

definition captchaPage :: page_env where
  "captchaPage = openPage\<lparr>checkbox := (\<lambda>k. True)\<rparr>"

definition redirectedPage :: page_env where
  "redirectedPage = openPage\<lparr>currentUrl := homeUrl, urlAfterReload := homeUrl\<rparr>"

definition challengePage :: page_env where
  "challengePage =
     openPage\<lparr>contentAfterReload := ''<html><body>Please verify you are human</body></html>''\<rparr>"

definition stuckPage :: page_env where
  "stuckPage = openPage\<lparr>loaded := (\<lambda>k. False)\<rparr>"

text \<open>A page whose session dies when the checkbox is clicked.\<close>

definition crashPage :: page_env where
  "crashPage = captchaPage\<lparr>rejects := (\<lambda>e k. e = ClickCheckbox)\<rparr>"

text \<open>
  A second payload, in which the price of the first listing has changed and a section is
  new; a monitored endpoint that holds 99 changes; and a store with two snapshots, the
  second of which has the same listing twice in its array.
\<close>

definition payload1 :: payload where
  "payload1 = \<lparr>tickets = Some [listingA\<lparr>price := ''$60''\<rparr>, listingB]\<rparr>"

definition endpoint99 :: ticketUrl where
  "endpoint99 =
     \<lparr>tu_url = eventUrl, tu_eventId = ''1E00625CD153457B'', lastChecked = 990000,
      tu_tickets = [listingA], stadium_image = None, stadium_layout = None,
      stadium_lastUpdated = None,
      changes = replicate 99 (NEW_SECTION ''Sec 1 Row A'' ''$10''),
      metadata = \<lparr>lastNetworkData = Some payload0, lastSuccessfulFetch = Some 990000,
                  fetchCount = 7\<rparr>\<rparr>"

definition store0 :: store where
  "store0 = [ListingCell listingA, ArrayCell [0], PayloadCell (Some 1),
             ListingCell (listingA\<lparr>price := ''$60''\<rparr>), ListingCell listingB,
             ArrayCell [3, 4, 3], PayloadCell (Some 5)]"

section \<open>Properties of the change detector\<close>

subsection \<open>The map built from a ticket array\<close>

lemma Map_set_keys:
  "map fst (Map_set m k v) = (if k \<in> fst ` set m then map fst m else map fst m @ [k])"
  by (induction m) (force simp: image_iff)+

lemma Map_set_map_of: "map_of (Map_set m k v) = (map_of m)(k \<mapsto> v)"
  by (induction m) (auto simp: fun_eq_iff)

lemma foldl_Map_set_keys:
  "map fst (foldl (\<lambda>m (k, v). Map_set m k v) m ps) =
     map fst m @ firstKeys (filter (\<lambda>k. k \<notin> fst ` set m) (map fst ps))"
proof (induction ps arbitrary: m)
  case Nil
  then show ?case by simp
next
  case (Cons p ps)
  obtain k v where p: "p = (k, v)" by (cases p)
  have set_keys: "fst ` set (Map_set m k v) = insert k (fst ` set m)"
    using arg_cong [OF Map_set_keys [of m k v], of set] by (auto simp: image_iff)
  show ?case
  proof (cases "k \<in> fst ` set m")
    case True
    then show ?thesis
      using Cons.IH [of "Map_set m k v"] p
      by (simp add: Map_set_keys set_keys insert_absorb)
  next
    case False
    have "filter (\<lambda>j. j \<noteq> k \<and> j \<notin> fst ` set m) (map fst ps) =
          filter (\<lambda>j. j \<noteq> k) (filter (\<lambda>j. j \<notin> fst ` set m) (map fst ps))"
      by (simp add: conj_commute)
    then show ?thesis
      using Cons.IH [of "Map_set m k v"] p False
      by (simp add: Map_set_keys set_keys)
  qed
qed

lemma new_Map_keys: "map fst (new_Map ps) = firstKeys (map fst ps)"
  by (simp add: new_Map_def foldl_Map_set_keys)

lemma foldl_Map_set_map_of:
  "map_of (foldl (\<lambda>m (k, v). Map_set m k v) m ps) = map_of m ++ map_of (rev ps)"
proof (induction ps arbitrary: m)
  case Nil
  then show ?case by simp
next
  case (Cons p ps)
  obtain k v where p: "p = (k, v)" by (cases p)
  show ?case
    using Cons.IH [of "Map_set m k v"] p
    by (auto simp: Map_set_map_of fun_eq_iff map_add_def split: option.splits)
qed

lemma new_Map_map_of: "map_of (new_Map ps) = map_of (rev ps)"
  by (simp add: new_Map_def foldl_Map_set_map_of)

lemma firstKeys_set: "set (firstKeys ks) = set ks"
  by (induction ks rule: firstKeys.induct) auto

lemma firstKeys_distinct: "distinct (firstKeys ks)"
  by (induction ks rule: firstKeys.induct) (auto simp: firstKeys_set)

lemma lastListing_last:
  "lastListing ts k =
     (if filter (\<lambda>t. sectionRow t = k) ts = [] then None
      else Some (last (filter (\<lambda>t. sectionRow t = k) ts)))"
  by (simp add: lastListing_def split: list.splits)

lemma lastListing_map_of:
  "lastListing ts k = map_of (rev (map (\<lambda>t. (sectionRow t, t)) ts)) k"
proof (induction ts rule: rev_induct)
  case Nil
  then show ?case by (simp add: lastListing_def)
next
  case (snoc t ts)
  then show ?case
    by (auto simp: lastListing_def split: list.splits)
qed

lemma ticketMap_get: "Map_get (ticketMap ts) k = lastListing ts k"
  by (simp add: Map_get_def ticketMap_def new_Map_map_of lastListing_map_of rev_map)

lemma ticketMap_keys: "map fst (ticketMap ts) = firstKeys (map sectionRow ts)"
  by (simp add: ticketMap_def new_Map_keys comp_def)

lemma ticketMap_has: "Map_has (ticketMap ts) k \<longleftrightarrow> lastListing ts k \<noteq> None"
proof -
  have "Map_has (ticketMap ts) k \<longleftrightarrow> k \<in> set (map fst (ticketMap ts))"
    by (simp add: Map_has_def)
  also have "\<dots> \<longleftrightarrow> map_of (ticketMap ts) k \<noteq> None"
    by (simp add: map_of_eq_None_iff)
  finally show ?thesis
    using ticketMap_get [of ts k] by (simp add: Map_get_def)
qed

lemma entries_by_keys:
  "distinct (map fst m) \<Longrightarrow> m = map (\<lambda>k. (k, the (map_of m k))) (map fst m)"
proof (induction m)
  case Nil
  then show ?case by simp
next
  case (Cons p m)
  then have "map (\<lambda>k. (k, the (map_of (p # m) k))) (map fst m) =
             map (\<lambda>k. (k, the (map_of m k))) (map fst m)"
    by (intro map_cong) (auto simp: image_iff)
  with Cons show ?case by (cases p) simp
qed

lemma foldl_snoc_if:
  "foldl (\<lambda>acc x. acc @ g x) acc xs = acc @ concat (map g xs)"
  by (induction xs arbitrary: acc) auto

lemma priceLoop_concat:
  "priceLoop old new acc = acc @ concat (map (\<lambda>(k, n).
      case Map_get old k of
        Some ot \<Rightarrow> if price ot \<noteq> price n then [PRICE_CHANGE k (price ot) (price n)] else []
      | None \<Rightarrow> []) new)"
proof -
  have "priceLoop old new acc = foldl (\<lambda>acc x. acc @ (case x of (k, n) \<Rightarrow>
      case Map_get old k of
        Some ot \<Rightarrow> if price ot \<noteq> price n then [PRICE_CHANGE k (price ot) (price n)] else []
      | None \<Rightarrow> [])) acc new"
    unfolding priceLoop_def
    by (intro arg_cong [where f = "\<lambda>f. foldl f acc new"]) (auto simp: fun_eq_iff split: option.splits)
  then show ?thesis by (simp add: foldl_snoc_if)
qed

lemma sectionLoop_concat:
  "sectionLoop old new acc = acc @ concat (map (\<lambda>(k, n).
      if \<not> Map_has old k then [NEW_SECTION k (price n)] else []) new)"
proof -
  have "sectionLoop old new acc = foldl (\<lambda>acc x. acc @ (case x of (k, n) \<Rightarrow>
      if \<not> Map_has old k then [NEW_SECTION k (price n)] else [])) acc new"
    unfolding sectionLoop_def
    by (intro arg_cong [where f = "\<lambda>f. foldl f acc new"]) (auto simp: fun_eq_iff)
  then show ?thesis by (simp add: foldl_snoc_if)
qed

lemma ticketMap_entries:
  "ticketMap ts = map (\<lambda>k. (k, the (lastListing ts k))) (firstKeys (map sectionRow ts))"
proof -
  have d: "distinct (map fst (ticketMap ts))"
    by (simp add: ticketMap_keys firstKeys_distinct)
  have "ticketMap ts = map (\<lambda>k. (k, the (map_of (ticketMap ts) k))) (map fst (ticketMap ts))"
    by (rule entries_by_keys [OF d])
  then show ?thesis
    using ticketMap_get [of ts] by (simp add: Map_get_def ticketMap_keys)
qed

lemma lastListing_key: "k \<in> sectionRow ` set ts \<Longrightarrow> \<exists>b. lastListing ts k = Some b"
  by (auto simp: lastListing_def filter_empty_conv split: list.splits)

lemma priceLoop_spec: "priceLoop (ticketMap ta) (ticketMap tb) [] = priceChanges ta tb"
proof -
  have "concat (map (\<lambda>(k, n).
      case Map_get (ticketMap ta) k of
        Some ot \<Rightarrow> if price ot \<noteq> price n then [PRICE_CHANGE k (price ot) (price n)] else []
      | None \<Rightarrow> []) (map (\<lambda>k. (k, the (lastListing tb k))) (firstKeys (map sectionRow tb))))
     = priceChanges ta tb"
    unfolding priceChanges_def map_map
  proof (intro arg_cong [where f = concat] map_cong refl)
    fix k assume "k \<in> set (firstKeys (map sectionRow tb))"
    then obtain b where "lastListing tb k = Some b"
      using lastListing_key [of k tb] by (auto simp: firstKeys_set)
    then show "((\<lambda>(k, n). case Map_get (ticketMap ta) k of
        Some ot \<Rightarrow> if price ot \<noteq> price n then [PRICE_CHANGE k (price ot) (price n)] else []
      | None \<Rightarrow> []) \<circ> (\<lambda>k. (k, the (lastListing tb k)))) k =
      (case (lastListing ta k, lastListing tb k) of
         (Some a, Some b) \<Rightarrow> if price a \<noteq> price b then [PRICE_CHANGE k (price a) (price b)] else []
       | _ \<Rightarrow> [])"
      by (simp add: ticketMap_get split: option.splits)
  qed
  then show ?thesis
    using ticketMap_entries [of tb] by (simp add: priceLoop_concat)
qed

lemma sectionLoop_spec:
  "sectionLoop (ticketMap ta) (ticketMap tb) acc = acc @ newSections ta tb"
proof -
  have "concat (map (\<lambda>(k, n).
      if \<not> Map_has (ticketMap ta) k then [NEW_SECTION k (price n)] else [])
      (map (\<lambda>k. (k, the (lastListing tb k))) (firstKeys (map sectionRow tb))))
     = newSections ta tb"
    unfolding newSections_def map_map
  proof (intro arg_cong [where f = concat] map_cong refl)
    fix k assume "k \<in> set (firstKeys (map sectionRow tb))"
    then obtain b where "lastListing tb k = Some b"
      using lastListing_key [of k tb] by (auto simp: firstKeys_set)
    then show "((\<lambda>(k, n). if \<not> Map_has (ticketMap ta) k then [NEW_SECTION k (price n)] else [])
        \<circ> (\<lambda>k. (k, the (lastListing tb k)))) k =
      (case (lastListing ta k, lastListing tb k) of
         (None, Some b) \<Rightarrow> [NEW_SECTION k (price b)]
       | _ \<Rightarrow> [])"
      by (simp add: ticketMap_has split: option.splits)
  qed
  then show ?thesis
    using ticketMap_entries [of tb] by (simp add: sectionLoop_concat)
qed

subsection \<open>The records emitted\<close>

text \<open>
  C2. When both snapshots carry a ticket array, the result of the detector is, in this
  order: for each key of the new lookup that the old lookup has too with a different
  price, one price change with the old and the new price; then for each key of the new
  lookup that the old lookup lacks, one new section with the new price. The keys of each
  group come in the order in which the new snapshot first has them, each key once, and
  there is nothing else in the result.
\<close>

theorem detectChanges_emits:
  assumes "tickets A = Some ta" and "tickets B = Some tb"
  shows "detectChanges (Some A) B = priceChanges ta tb @ newSections ta tb
         \<and> distinct (firstKeys (map sectionRow tb))
         \<and> set (firstKeys (map sectionRow tb)) = sectionRow ` set tb"
  using assms
  by (simp add: detectChanges_def priceLoop_spec sectionLoop_spec firstKeys_distinct
      firstKeys_set)

theorem detectChanges_emits_witness:
  "tickets \<lparr>tickets = Some [\<lparr>sectionRow = ''Sec 101 Row A'', price = ''$50'',
                             type = ''resale'', timestamp = ''t0''\<rparr>,
                            \<lparr>sectionRow = ''Sec 103 Row C'', price = ''$70'',
                             type = ''resale'', timestamp = ''t0''\<rparr>]\<rparr>
     = Some [\<lparr>sectionRow = ''Sec 101 Row A'', price = ''$50'',
              type = ''resale'', timestamp = ''t0''\<rparr>,
             \<lparr>sectionRow = ''Sec 103 Row C'', price = ''$70'',
              type = ''resale'', timestamp = ''t0''\<rparr>]
   \<and> detectChanges
        (Some \<lparr>tickets = Some [\<lparr>sectionRow = ''Sec 101 Row A'', price = ''$50'',
                                 type = ''resale'', timestamp = ''t0''\<rparr>,
                                \<lparr>sectionRow = ''Sec 103 Row C'', price = ''$70'',
                                 type = ''resale'', timestamp = ''t0''\<rparr>]\<rparr>)
        \<lparr>tickets = Some [\<lparr>sectionRow = ''Sec 102 Row B'', price = ''$40'',
                           type = ''resale'', timestamp = ''t1''\<rparr>,
                          \<lparr>sectionRow = ''Sec 101 Row A'', price = ''$55'',
                           type = ''resale'', timestamp = ''t1''\<rparr>,
                          \<lparr>sectionRow = ''Sec 103 Row C'', price = ''$70'',
                           type = ''resale'', timestamp = ''t1''\<rparr>,
                          \<lparr>sectionRow = ''Sec 101 Row A'', price = ''$60'',
                           type = ''resale'', timestamp = ''t1''\<rparr>]\<rparr>
      = [PRICE_CHANGE ''Sec 101 Row A'' ''$50'' ''$60'',
         NEW_SECTION ''Sec 102 Row B'' ''$40'']"
  using detectChanges_emits
    [of "\<lparr>tickets = Some [\<lparr>sectionRow = ''Sec 101 Row A'', price = ''$50'',
                            type = ''resale'', timestamp = ''t0''\<rparr>,
                           \<lparr>sectionRow = ''Sec 103 Row C'', price = ''$70'',
                            type = ''resale'', timestamp = ''t0''\<rparr>]\<rparr>"
        "[\<lparr>sectionRow = ''Sec 101 Row A'', price = ''$50'',
           type = ''resale'', timestamp = ''t0''\<rparr>,
          \<lparr>sectionRow = ''Sec 103 Row C'', price = ''$70'',
           type = ''resale'', timestamp = ''t0''\<rparr>]"
        "\<lparr>tickets = Some [\<lparr>sectionRow = ''Sec 102 Row B'', price = ''$40'',
                            type = ''resale'', timestamp = ''t1''\<rparr>,
                           \<lparr>sectionRow = ''Sec 101 Row A'', price = ''$55'',
                            type = ''resale'', timestamp = ''t1''\<rparr>,
                           \<lparr>sectionRow = ''Sec 103 Row C'', price = ''$70'',
                            type = ''resale'', timestamp = ''t1''\<rparr>,
                           \<lparr>sectionRow = ''Sec 101 Row A'', price = ''$60'',
                            type = ''resale'', timestamp = ''t1''\<rparr>]\<rparr>"
        "[\<lparr>sectionRow = ''Sec 102 Row B'', price = ''$40'',
           type = ''resale'', timestamp = ''t1''\<rparr>,
          \<lparr>sectionRow = ''Sec 101 Row A'', price = ''$55'',
           type = ''resale'', timestamp = ''t1''\<rparr>,
          \<lparr>sectionRow = ''Sec 103 Row C'', price = ''$70'',
           type = ''resale'', timestamp = ''t1''\<rparr>,
          \<lparr>sectionRow = ''Sec 101 Row A'', price = ''$60'',
           type = ''resale'', timestamp = ''t1''\<rparr>]"]
  by (simp add: priceChanges_def newSections_def lastListing_def)

text \<open>
  C8. The lookup that the detector builds from a ticket array gives, for a key, the last
  listing of the array that carries the key: a listing after which no listing has its key
  is the one the lookup holds. The detector builds the lookup of the old and that of the new
  snapshot by the same \<open>ticketMap\<close>.
\<close>

theorem lookup_last_write_wins:
  "Map_get (ticketMap ts) k = lastListing ts k
   \<and> ((\<forall>u \<in> set ys. sectionRow u \<noteq> sectionRow t) \<longrightarrow>
        Map_get (ticketMap (xs @ t # ys)) (sectionRow t) = Some t)
   \<and> (tickets A = Some ta \<and> tickets B = Some tb \<longrightarrow>
        detectChanges (Some A) B =
          sectionLoop (ticketMap ta) (ticketMap tb) (priceLoop (ticketMap ta) (ticketMap tb) []))"
proof -
  have "(\<forall>u \<in> set ys. sectionRow u \<noteq> sectionRow t) \<Longrightarrow>
        lastListing (xs @ t # ys) (sectionRow t) = Some t"
  proof -
    assume "\<forall>u \<in> set ys. sectionRow u \<noteq> sectionRow t"
    then have "filter (\<lambda>u. sectionRow u = sectionRow t) (xs @ t # ys) =
               filter (\<lambda>u. sectionRow u = sectionRow t) xs @ [t]"
      by (simp add: filter_empty_conv)
    then show ?thesis
      by (simp add: lastListing_last)
  qed
  then show ?thesis
    by (simp add: ticketMap_get detectChanges_def Let_def)
qed

theorem lookup_last_write_wins_witness:
  "list_all (\<lambda>u. sectionRow u \<noteq> ''Sec 1'')
     [\<lparr>sectionRow = ''Sec 7'', price = ''$30'', type = '''', timestamp = ''''\<rparr>]
   \<and> Map_get (ticketMap [\<lparr>sectionRow = ''Sec 1'', price = ''$10'', type = '''', timestamp = ''''\<rparr>,
                          \<lparr>sectionRow = ''Sec 1'', price = ''$20'', type = '''', timestamp = ''''\<rparr>,
                          \<lparr>sectionRow = ''Sec 7'', price = ''$30'', type = '''', timestamp = ''''\<rparr>])
        ''Sec 1''
      = Some \<lparr>sectionRow = ''Sec 1'', price = ''$20'', type = '''', timestamp = ''''\<rparr>"
  using lookup_last_write_wins
    [of "[]" "''Sec 1''"
        "[\<lparr>sectionRow = ''Sec 7'', price = ''$30'', type = '''', timestamp = ''''\<rparr>]"
        "\<lparr>sectionRow = ''Sec 1'', price = ''$20'', type = '''', timestamp = ''''\<rparr>"
        "[\<lparr>sectionRow = ''Sec 1'', price = ''$10'', type = '''', timestamp = ''''\<rparr>]"]
  by simp

text \<open>
  On payloads whose \<^verbatim>\<open>tickets\<close> field is absent or an array, the detector on payloads
  as the network gives them is the detector of the data model.
\<close>

lemma detectChangesJson_asJson:
  "detectChangesJson (map_option asJson oldData) (asJson newData) =
     Inr (detectChanges oldData newData)"
  by (cases oldData)
     (simp_all add: detectChangesJson_def detectChanges_def asJson_def truthy_def
        ticketMapOf_def Let_def split: option.splits)

text \<open>
  C10, as amended. With old data present: when the \<^verbatim>\<open>tickets\<close> field of the old or of
  the new payload is absent or falsy, the detector returns the empty list, whatever the
  other field holds; when both fields are truthy and one of them is not an array, the
  detector throws a \<^verbatim>\<open>TypeError\<close>. On payloads of the data model, whose field is absent
  or an array, this is the detector of the other theorems, and it returns the empty list
  when either field is absent.
\<close>

theorem detectChanges_without_tickets:
  "(j_tickets A = NoTickets \<or> j_tickets B = NoTickets \<longrightarrow>
      detectChangesJson (Some A) B = Inr [])
   \<and> (j_tickets A \<noteq> NoTickets \<and> j_tickets B \<noteq> NoTickets
        \<and> (j_tickets A = NotArray \<or> j_tickets B = NotArray) \<longrightarrow>
      detectChangesJson (Some A) B = Inl TypeError)
   \<and> detectChangesJson (Some (asJson a)) (asJson b) = Inr (detectChanges (Some a) b)
   \<and> (tickets a = None \<or> tickets b = None \<longrightarrow> detectChanges (Some a) b = [])"
proof -
  have 1: "j_tickets A = NoTickets \<or> j_tickets B = NoTickets \<Longrightarrow>
      detectChangesJson (Some A) B = Inr []"
    by (auto simp: detectChangesJson_def truthy_def)
  have 2: "j_tickets A \<noteq> NoTickets \<and> j_tickets B \<noteq> NoTickets
        \<and> (j_tickets A = NotArray \<or> j_tickets B = NotArray) \<Longrightarrow>
      detectChangesJson (Some A) B = Inl TypeError"
    by (cases "j_tickets A"; cases "j_tickets B")
       (simp_all add: detectChangesJson_def truthy_def ticketMapOf_def)
  have 3: "detectChangesJson (Some (asJson a)) (asJson b) = Inr (detectChanges (Some a) b)"
    using detectChangesJson_asJson [of "Some a" b] by simp
  have 4: "tickets a = None \<or> tickets b = None \<Longrightarrow> detectChanges (Some a) b = []"
    by (auto simp: detectChanges_def split: option.splits)
  from 1 2 3 4 show ?thesis by blast
qed

theorem detectChanges_without_tickets_witness:
  "j_tickets absentPayload = NoTickets
   \<and> detectChangesJson (Some absentPayload) opaquePayload = Inr []
   \<and> j_tickets opaquePayload = NotArray \<and> j_tickets (asJson payload0) \<noteq> NoTickets
   \<and> detectChangesJson (Some (asJson payload0)) opaquePayload = Inl TypeError
   \<and> tickets \<lparr>tickets = None\<rparr> = None
   \<and> detectChanges (Some \<lparr>tickets = None\<rparr>) payload0 = []"
  using detectChanges_without_tickets
          [where A = absentPayload and B = opaquePayload
             and a = "\<lparr>tickets = None\<rparr>" and b = payload0]
        detectChanges_without_tickets
          [where A = "asJson payload0" and B = opaquePayload
             and a = "\<lparr>tickets = None\<rparr>" and b = payload0]
  by (simp add: absentPayload_def opaquePayload_def asJson_def payload0_def)

text \<open>
  C10 as first stated has the detector return the empty list whenever one of the two
  \<^verbatim>\<open>tickets\<close> fields is not an array. With an old payload whose field holds an object
  and a new payload with an array of one listing, both fields are truthy, the detector
  calls \<^verbatim>\<open>.map\<close> on the object and throws.
\<close>

theorem detectChanges_nonarray_counterexample:
  "j_tickets opaquePayload = NotArray
   \<and> detectChangesJson (Some opaquePayload) (asJson payload0) = Inl TypeError
   \<and> detectChangesJson (Some opaquePayload) (asJson payload0) \<noteq> Inr []"
  by (simp add: detectChangesJson_def truthy_def ticketMapOf_def opaquePayload_def
      asJson_def payload0_def)

section \<open>Properties of the update step\<close>

lemma slice_last_drop: "slice_last n xs = drop (length xs - n) xs"
  by (simp add: slice_last_def)

lemma trackChanges_changes:
  "changes (trackChanges tu networkData) =
     (case networkData of
        None \<Rightarrow> changes tu
      | Some nd \<Rightarrow>
          if detectChanges (lastNetworkData (metadata tu)) nd = [] then changes tu
          else drop (length (changes tu @ detectChanges (lastNetworkData (metadata tu)) nd) - 100)
                 (changes tu @ detectChanges (lastNetworkData (metadata tu)) nd))"
  by (simp add: trackChanges_def Let_def slice_last_drop split: option.splits)

lemma updateTickets_changes:
  "changes (updateTickets tu (date, ticketList, stadiumData, networkData)) =
     changes (trackChanges tu networkData)"
  by (simp add: updateTickets_def Let_def trackChanges_changes split: option.splits)

lemma updateTickets_lastNetworkData:
  "lastNetworkData (metadata (updateTickets tu (date, ticketList, stadiumData, networkData))) =
     (case networkData of None \<Rightarrow> lastNetworkData (metadata tu) | Some nd \<Rightarrow> Some nd)"
  by (simp add: updateTickets_def trackChanges_def Let_def split: option.splits)

lemma capped_length:
  "length old \<le> 100 \<or> new \<noteq> [] \<Longrightarrow>
   length (if new = [] then old else drop (length (old @ new) - 100) (old @ new)) \<le> 100"
  by (auto simp del: drop_append)

lemma trackChanges_bound:
  assumes "length (changes tu) \<le> 100"
  shows "length (changes (trackChanges tu networkData)) \<le> 100"
proof (cases networkData)
  case None
  with assms show ?thesis by (simp add: trackChanges_changes)
next
  case (Some nd)
  from assms have "length (changes tu) \<le> 100 \<or>
      detectChanges (lastNetworkData (metadata tu)) nd \<noteq> []"
    by simp
  from capped_length [OF this] Some show ?thesis
    by (simp only: trackChanges_changes option.case)
qed

lemma trackChanges_append_bound:
  assumes "detectChanges (lastNetworkData (metadata tu)) nd \<noteq> []"
  shows "length (changes (trackChanges tu (Some nd))) \<le> 100"
proof -
  from assms have "length (changes tu) \<le> 100 \<or>
      detectChanges (lastNetworkData (metadata tu)) nd \<noteq> []"
    by simp
  from capped_length [OF this] show ?thesis
    by (simp only: trackChanges_changes option.case)
qed

lemma updateTickets_bound:
  assumes "length (changes tu) \<le> 100"
  shows "length (changes (updateTickets tu f)) \<le> 100"
proof (cases f)
  case (fields date ticketList stadiumData networkData)
  from assms have "length (changes (trackChanges tu networkData)) \<le> 100"
    by (rule trackChanges_bound)
  with fields show ?thesis
    by (simp only: updateTickets_changes)
qed

lemma foldl_updateTickets_bound:
  "length (changes tu) \<le> 100 \<Longrightarrow> length (changes (foldl updateTickets tu fs)) \<le> 100"
  by (induction fs arbitrary: tu) (simp_all add: updateTickets_bound)

lemma detect01:
  "detectChanges (Some payload0) payload1 =
     [PRICE_CHANGE ''Sec 101 Row A'' ''$50'' ''$60'', NEW_SECTION ''Sec 102 Row B'' ''$40'']"
  by (simp add: detectChanges_def payload0_def payload1_def ticketMap_def new_Map_def
      priceLoop_def sectionLoop_def Map_get_def Map_has_def listingA_def listingB_def)

text \<open>
  C5. Starting from a record whose list of changes has at most 100 entries (a new record
  has none), the list has at most 100 entries after every update step of every sequence of
  fetch results. A step that detects changes leaves the list as the old entries followed by
  the new ones with the oldest entries dropped from the front until 100 are left, so its
  list has at most 100 entries whatever the record held before; a step that detects none
  leaves the list as it is.
\<close>

theorem changes_capped:
  "(length (changes tu) \<le> 100 \<longrightarrow> length (changes (foldl updateTickets tu fs)) \<le> 100)
   \<and> (detectChanges (lastNetworkData (metadata tu)) nd \<noteq> [] \<longrightarrow>
        changes (updateTickets tu (date, ticketList, stadiumData, Some nd)) =
          drop (length (changes tu @ detectChanges (lastNetworkData (metadata tu)) nd) - 100)
            (changes tu @ detectChanges (lastNetworkData (metadata tu)) nd)
        \<and> length (changes (updateTickets tu (date, ticketList, stadiumData, Some nd))) \<le> 100)
   \<and> (detectChanges (lastNetworkData (metadata tu)) nd = [] \<longrightarrow>
        changes (updateTickets tu (date, ticketList, stadiumData, Some nd)) = changes tu)
   \<and> changes (updateTickets tu (date, ticketList, stadiumData, None)) = changes tu"
proof -
  have "detectChanges (lastNetworkData (metadata tu)) nd \<noteq> [] \<Longrightarrow>
        length (changes (trackChanges tu (Some nd))) \<le> 100"
    by (rule trackChanges_append_bound)
  then show ?thesis
    by (simp add: foldl_updateTickets_bound updateTickets_changes)
       (simp add: trackChanges_changes)
qed

theorem changes_capped_witness:
  "length (changes endpoint99) \<le> 100
   \<and> detectChanges (lastNetworkData (metadata endpoint99)) payload1 \<noteq> []
   \<and> length (changes (foldl updateTickets endpoint99
        [(1000000, [listingA, listingB], Some stadium0, Some payload1),
         (1005000, [listingA, listingB], Some stadium0, Some payload0)])) \<le> 100
   \<and> changes (updateTickets endpoint99 (1000000, [listingA, listingB], Some stadium0, Some payload1))
       = replicate 98 (NEW_SECTION ''Sec 1 Row A'' ''$10'')
           @ [PRICE_CHANGE ''Sec 101 Row A'' ''$50'' ''$60'', NEW_SECTION ''Sec 102 Row B'' ''$40'']"
  using changes_capped [of endpoint99
      "[(1000000, [listingA, listingB], Some stadium0, Some payload1),
        (1005000, [listingA, listingB], Some stadium0, Some payload0)]"
      payload1 1000000 "[listingA, listingB]" "Some stadium0"]
  by (simp add: endpoint99_def detect01)

section \<open>Properties of the event identifier\<close>

lemma isEventPrefix_length: "isEventPrefix ev \<Longrightarrow> length ev = 6"
  unfolding isEventPrefix_def using length_map [of lowerChar ev] by simp

lemma stripEvent_Some:
  "stripEvent s = Some rest \<longleftrightarrow> (\<exists>ev. s = ev @ rest \<and> isEventPrefix ev)"
proof
  assume "stripEvent s = Some rest"
  then have "isEventPrefix (take 6 s)" and "rest = drop 6 s"
    by (auto simp: stripEvent_def isEventPrefix_def split: if_splits)
  then have "s = take 6 s @ rest \<and> isEventPrefix (take 6 s)"
    by simp
  then show "\<exists>ev. s = ev @ rest \<and> isEventPrefix ev" ..
next
  assume "\<exists>ev. s = ev @ rest \<and> isEventPrefix ev"
  then obtain ev where s: "s = ev @ rest" and ev: "isEventPrefix ev"
    by auto
  from ev have "length ev = 6" by (rule isEventPrefix_length)
  with s ev show "stripEvent s = Some rest"
    by (simp add: stripEvent_def isEventPrefix_def)
qed

lemma matchEventId_step:
  "matchEventId (c # cs) =
     (case stripEvent (c # cs) of
        Some rest \<Rightarrow>
          if takeWhile isAlnum rest \<noteq> [] then Some (takeWhile isAlnum rest)
          else matchEventId cs
      | None \<Rightarrow> matchEventId cs)"
  by simp

lemma matchEventId_Some:
  "matchEventId url = Some e \<Longrightarrow>
     e \<noteq> [] \<and> list_all isAlnum e \<and>
     (\<exists>pre ev post. url = pre @ ev @ e @ post \<and> isEventPrefix ev
        \<and> (post = [] \<or> \<not> isAlnum (hd post)))"
proof (induction url)
  case Nil
  then show ?case by simp
next
  case (Cons c cs)
  show ?case
  proof (cases "\<exists>rest. stripEvent (c # cs) = Some rest \<and> takeWhile isAlnum rest \<noteq> []")
    case True
    then obtain rest where r: "stripEvent (c # cs) = Some rest"
      and t: "takeWhile isAlnum rest \<noteq> []" by auto
    with Cons.prems have e: "e = takeWhile isAlnum rest"
      by (simp only: matchEventId_step option.case if_True) simp
    from r obtain ev where ev: "c # cs = ev @ rest" "isEventPrefix ev"
      by (auto simp only: stripEvent_Some)
    have "c # cs = [] @ ev @ e @ dropWhile isAlnum rest"
      using ev e by simp
    moreover have "dropWhile isAlnum rest = [] \<or> \<not> isAlnum (hd (dropWhile isAlnum rest))"
      using hd_dropWhile [of isAlnum rest] by auto
    moreover have "list_all isAlnum e"
      using e by (simp add: list_all_iff) (meson set_takeWhileD)
    ultimately have "c # cs = [] @ ev @ e @ dropWhile isAlnum rest
        \<and> isEventPrefix ev
        \<and> (dropWhile isAlnum rest = [] \<or> \<not> isAlnum (hd (dropWhile isAlnum rest)))"
      and "e \<noteq> []" and "list_all isAlnum e"
      using t e ev(2) by simp_all
    then show ?thesis by blast
  next
    case False
    have m: "matchEventId cs = Some e"
    proof (cases "stripEvent (c # cs)")
      case None
      with Cons.prems show ?thesis
        by (simp only: matchEventId_step option.case)
    next
      case (Some rest)
      with False have "takeWhile isAlnum rest = []" by simp
      with Cons.prems Some show ?thesis
        by (simp only: matchEventId_step option.case) simp
    qed
    from Cons.IH [OF m] obtain pre ev post
      where "cs = pre @ ev @ e @ post" "isEventPrefix ev"
      "post = [] \<or> \<not> isAlnum (hd post)" "e \<noteq> []" "list_all isAlnum e"
      by auto
    then have "c # cs = (c # pre) @ ev @ e @ post
        \<and> isEventPrefix ev \<and> (post = [] \<or> \<not> isAlnum (hd post))"
      and "e \<noteq> []" and "list_all isAlnum e"
      by simp_all
    then show ?thesis by blast
  qed
qed

lemma matchEventId_found:
  "isEventPrefix ev \<Longrightarrow> isAlnum c \<Longrightarrow> matchEventId (pre @ ev @ c # post) \<noteq> None"
proof (induction pre)
  case Nil
  then have s: "stripEvent (ev @ c # post) = Some (c # post)"
    by (auto simp only: stripEvent_Some)
  from Nil have "length ev = 6" by (simp add: isEventPrefix_length)
  then obtain x xs where x: "ev = x # xs"
    by (cases ev) auto
  have "matchEventId (x # xs @ c # post) \<noteq> None"
    using s Nil(2) unfolding x append_Cons
    by (simp only: matchEventId_step option.case) simp
  then show ?case
    unfolding x append_Nil append_Cons .
next
  case (Cons p pre)
  then have "matchEventId (pre @ ev @ c # post) \<noteq> None" by simp
  then show ?case
    unfolding append_Cons
    by (simp only: matchEventId_step split: option.splits) auto
qed

lemma matchEventId_None: "matchEventId url = None \<longleftrightarrow> \<not> hasEventSegment url"
proof
  assume none: "matchEventId url = None"
  show "\<not> hasEventSegment url"
  proof
    assume "hasEventSegment url"
    then obtain pre ev c post where "url = pre @ ev @ c # post"
      and "isEventPrefix ev" and "isAlnum c"
      unfolding hasEventSegment_def by auto
    with matchEventId_found [of ev c pre post] none
    show False by simp
  qed
next
  assume n: "\<not> hasEventSegment url"
  show "matchEventId url = None"
  proof (rule ccontr)
    assume "matchEventId url \<noteq> None"
    then obtain e where "matchEventId url = Some e" by auto
    from matchEventId_Some [OF this] obtain pre ev post c e'
      where "url = pre @ ev @ e @ post" "isEventPrefix ev" "e = c # e'" "isAlnum c"
      by (cases e) auto
    then have "url = pre @ ev @ c # (e' @ post) \<and> isEventPrefix ev \<and> isAlnum c"
      by simp
    then have "hasEventSegment url"
      unfolding hasEventSegment_def by blast
    with n show False by simp
  qed
qed

lemma matchEventId_eventUrl: "matchEventId eventUrl = Some ''1E00625CD153457B''"
  by (simp add: eventUrl_def stripEvent_def lowerChar_def isAlnum_def)

lemma matchEventId_homeUrl: "matchEventId homeUrl = None"
  by (simp add: homeUrl_def stripEvent_def lowerChar_def)


section \<open>Properties of the bot check loop\<close>

text \<open>The loop unfolded once, the bindings of a round written out.\<close>

lemma botGate_unfold:
  "botGate env passed attempt w =
     (if attempt < maxAttempts \<and> \<not> passed then
        (if rejects env WaitLoaded (attempt + 1)
         then (Inl PageError, attempt + 1, log WaitLoaded w)
         else if \<not> loaded env (attempt + 1)
         then (Inl TimeoutError, attempt + 1, log WaitLoaded w)
         else if rejects env QueryCheckbox (attempt + 1)
         then (Inl PageError, attempt + 1, afterLoad (attempt + 1) w)
         else if checkbox env (attempt + 1)
         then (if rejects env ClickCheckbox (attempt + 1)
               then (Inl PageError, attempt + 1, log ClickCheckbox (afterLoad (attempt + 1) w))
               else botGate env passed (attempt + 1) (afterClick (attempt + 1) w))
         else if rejects env ReadText (attempt + 1)
         then (Inl PageError, attempt + 1, log ReadText (afterLoad (attempt + 1) w))
         else if str_includes (pageText env (attempt + 1)) blockMarker
         then (if rejects env PressF5 (attempt + 1)
               then (Inl PageError, attempt + 1,
                     log PressF5 (log ReadText (afterLoad (attempt + 1) w)))
               else botGate env passed (attempt + 1) (afterReload (attempt + 1) w))
         else botGate env True (attempt + 1) (log ReadText (afterLoad (attempt + 1) w)))
      else (Inr passed, attempt, w))"
  by (subst botGate.simps) (simp add: Let_def afterLoad_def afterClick_def afterReload_def)

declare botGate.simps [simp del] navigate.simps [simp del] extractStadiumLoop.simps [simp del]

lemma botGate_done:
  "\<not> (attempt < maxAttempts \<and> \<not> passed) \<Longrightarrow>
   botGate env passed attempt w = (Inr passed, attempt, w)"
  by (subst botGate_unfold, rule if_not_P)

text \<open>
  What one round does: it throws, and then the wait of this round has run out of time or
  a call of this round has rejected; or it hands over to the next round; or it passes.
\<close>

lemma botGate_round:
  assumes "attempt < maxAttempts" and "\<not> passed"
  obtains
    (timeout) w' where "botGate env passed attempt w = (Inl TimeoutError, attempt + 1, w')"
      and "\<not> loaded env (attempt + 1)"
  | (rejected) w' where "botGate env passed attempt w = (Inl PageError, attempt + 1, w')"
      and "roundRejects env (attempt + 1)"
  | (again) w' where "botGate env passed attempt w = botGate env passed (attempt + 1) w'"
      and "loaded env (attempt + 1)" and "\<not> rejects env WaitLoaded (attempt + 1)"
  | (pass) w' where "botGate env passed attempt w = (Inr True, attempt + 1, w')"
proof -
  let ?k = "attempt + 1"
  note u = botGate_unfold [of env passed attempt w]
  consider (a) "rejects env WaitLoaded ?k"
    | (b) "\<not> rejects env WaitLoaded ?k" "\<not> loaded env ?k"
    | (c) "\<not> rejects env WaitLoaded ?k" "loaded env ?k" "rejects env QueryCheckbox ?k"
    | (d) "\<not> rejects env WaitLoaded ?k" "loaded env ?k" "\<not> rejects env QueryCheckbox ?k"
          "checkbox env ?k" "rejects env ClickCheckbox ?k"
    | (e) "\<not> rejects env WaitLoaded ?k" "loaded env ?k" "\<not> rejects env QueryCheckbox ?k"
          "checkbox env ?k" "\<not> rejects env ClickCheckbox ?k"
    | (f) "\<not> rejects env WaitLoaded ?k" "loaded env ?k" "\<not> rejects env QueryCheckbox ?k"
          "\<not> checkbox env ?k" "rejects env ReadText ?k"
    | (g) "\<not> rejects env WaitLoaded ?k" "loaded env ?k" "\<not> rejects env QueryCheckbox ?k"
          "\<not> checkbox env ?k" "\<not> rejects env ReadText ?k"
          "str_includes (pageText env ?k) blockMarker" "rejects env PressF5 ?k"
    | (h) "\<not> rejects env WaitLoaded ?k" "loaded env ?k" "\<not> rejects env QueryCheckbox ?k"
          "\<not> checkbox env ?k" "\<not> rejects env ReadText ?k"
          "str_includes (pageText env ?k) blockMarker" "\<not> rejects env PressF5 ?k"
    | (i) "\<not> rejects env WaitLoaded ?k" "loaded env ?k" "\<not> rejects env QueryCheckbox ?k"
          "\<not> checkbox env ?k" "\<not> rejects env ReadText ?k"
          "\<not> str_includes (pageText env ?k) blockMarker"
    by blast
  then show thesis
  proof cases
    case a
    with assms u have "botGate env passed attempt w = (Inl PageError, ?k, log WaitLoaded w)"
      by simp
    moreover from a have "roundRejects env ?k" by (simp add: roundRejects_def)
    ultimately show thesis by (rule rejected)
  next
    case b
    with assms u have "botGate env passed attempt w = (Inl TimeoutError, ?k, log WaitLoaded w)"
      by simp
    then show thesis using b(2) by (rule timeout)
  next
    case c
    with assms u have "botGate env passed attempt w = (Inl PageError, ?k, afterLoad ?k w)"
      by simp
    moreover from c have "roundRejects env ?k" by (simp add: roundRejects_def)
    ultimately show thesis by (rule rejected)
  next
    case d
    with assms u have "botGate env passed attempt w =
        (Inl PageError, ?k, log ClickCheckbox (afterLoad ?k w))"
      by simp
    moreover from d have "roundRejects env ?k" by (simp add: roundRejects_def)
    ultimately show thesis by (rule rejected)
  next
    case e
    with assms u have "botGate env passed attempt w =
        botGate env passed ?k (afterClick ?k w)"
      by simp
    then show thesis using e(2) e(1) by (rule again)
  next
    case f
    with assms u have "botGate env passed attempt w =
        (Inl PageError, ?k, log ReadText (afterLoad ?k w))"
      by simp
    moreover from f have "roundRejects env ?k" by (simp add: roundRejects_def)
    ultimately show thesis by (rule rejected)
  next
    case g
    with assms u have "botGate env passed attempt w =
        (Inl PageError, ?k, log PressF5 (log ReadText (afterLoad ?k w)))"
      by simp
    moreover from g have "roundRejects env ?k" by (simp add: roundRejects_def)
    ultimately show thesis by (rule rejected)
  next
    case h
    with assms u have "botGate env passed attempt w =
        botGate env passed ?k (afterReload ?k w)"
      by simp
    then show thesis using h(2) h(1) by (rule again)
  next
    case i
    with assms u have "botGate env passed attempt w =
        botGate env True ?k (log ReadText (afterLoad ?k w))"
      by simp
    then have "botGate env passed attempt w = (Inr True, ?k, log ReadText (afterLoad ?k w))"
      by (simp add: botGate_done)
    then show thesis by (rule pass)
  qed
qed

text \<open>
  The rounds never pass the cap, whatever the page shows: by induction on what is left
  of the cap.
\<close>

lemma botGate_rounds:
  "attempt \<le> maxAttempts \<Longrightarrow>
   attempt \<le> fst (snd (botGate env passed attempt w)) \<and>
   fst (snd (botGate env passed attempt w)) \<le> maxAttempts"
proof (induction "maxAttempts - attempt" arbitrary: attempt w)
  case 0
  then have "\<not> (attempt < maxAttempts \<and> \<not> passed)" by simp
  then show ?case using "0.prems" by (simp add: botGate_done)
next
  case (Suc d)
  then have lt: "attempt < maxAttempts" and d: "d = maxAttempts - (attempt + 1)"
    and le: "attempt + 1 \<le> maxAttempts"
    by simp_all
  note IH = Suc.hyps(1) [OF d le]
  show ?case
  proof (cases passed)
    case True
    then show ?thesis using Suc.prems by (simp add: botGate_done)
  next
    case False
    from lt False show ?thesis
    proof (cases rule: botGate_round [where env = env and w = w])
      case (timeout w')
      then show ?thesis using le by simp
    next
      case (rejected w')
      then show ?thesis using le by simp
    next
      case (again w')
      then show ?thesis using IH [of w'] by simp
    next
      case (pass w')
      then show ?thesis using le by simp
    qed
  qed
qed

text \<open>What the loop can end with.\<close>

lemma botGate_outcome:
  "fst (botGate env passed attempt w) = Inr True
   \<or> (fst (botGate env passed attempt w) = Inr False
        \<and> maxAttempts \<le> fst (snd (botGate env passed attempt w)))
   \<or> (fst (botGate env passed attempt w) = Inl TimeoutError
        \<and> \<not> loaded env (fst (snd (botGate env passed attempt w))))
   \<or> (fst (botGate env passed attempt w) = Inl PageError
        \<and> roundRejects env (fst (snd (botGate env passed attempt w))))"
proof (induction "maxAttempts - attempt" arbitrary: attempt w)
  case 0
  then have "\<not> (attempt < maxAttempts \<and> \<not> passed)" by simp
  then show ?case using 0 by (cases passed) (simp_all add: botGate_done)
next
  case (Suc d)
  then have lt: "attempt < maxAttempts" and d: "d = maxAttempts - (attempt + 1)"
    by simp_all
  note IH = Suc.hyps(1) [OF d]
  show ?case
  proof (cases passed)
    case True
    then show ?thesis by (simp add: botGate_done)
  next
    case False
    from lt False show ?thesis
    proof (cases rule: botGate_round [where env = env and w = w])
      case (timeout w')
      then show ?thesis by simp
    next
      case (rejected w')
      then show ?thesis by simp
    next
      case (again w')
      then show ?thesis using IH [of w'] by simp
    next
      case (pass w')
      then show ?thesis by simp
    qed
  qed
qed

text \<open>A navigation that succeeds at once.\<close>

lemma navigate_first_try:
  "gotoOk env 0 \<Longrightarrow> \<not> rejects env CloseOtherTabs 0 \<Longrightarrow>
   navigate env url 0 False w =
     (None, sleep 12000 (log CloseOtherTabs (log (Goto url) w)))"
  by (simp add: navigate.simps maxRetries_def Let_def)

lemma openPage_calls:
  "rejects openPage e k = False" "gotoOk openPage k" "loaded openPage k"
  "rejects captchaPage e k = False" "gotoOk captchaPage k"
  "rejects stuckPage e k = False" "gotoOk stuckPage k" "\<not> loaded stuckPage k"
  "rejects crashPage e k = (e = ClickCheckbox)" "gotoOk crashPage k"
  by (simp_all add: openPage_def captchaPage_def stuckPage_def crashPage_def)

text \<open>
  C6, as amended. From its start (\<^verbatim>\<open>passed = false\<close>, \<^verbatim>\<open>attempt = 0\<close>) the bot check
  loop ends after at most 3 rounds, whatever the page shows in each round: checkbox, block
  page or neither, in any order. It ends passed, or not passed with all 3 rounds used, or
  by throwing: the error of a wait for the loading indicator whose time ran out in the
  last round run, or the error of a call of the page that rejected in that round. On a
  page whose waits all come back and whose calls all succeed it ends passed or not passed.
\<close>

theorem botGate_terminates:
  "fst (snd (botGate env False 0 w)) \<le> 3
   \<and> (fst (botGate env False 0 w) = Inr True
        \<or> fst (botGate env False 0 w) = Inr False \<and> fst (snd (botGate env False 0 w)) = 3
        \<or> fst (botGate env False 0 w) = Inl TimeoutError
            \<and> \<not> loaded env (fst (snd (botGate env False 0 w)))
        \<or> fst (botGate env False 0 w) = Inl PageError
            \<and> roundRejects env (fst (snd (botGate env False 0 w))))
   \<and> (answers env \<longrightarrow>
        fst (botGate env False 0 w) = Inr True \<or> fst (botGate env False 0 w) = Inr False)"
proof -
  have r: "fst (snd (botGate env False 0 w)) \<le> 3"
    using botGate_rounds [of 0 env False w] by (simp add: maxAttempts_def)
  note o = botGate_outcome [of env False 0 w]
  have 2: "fst (botGate env False 0 w) = Inr True
        \<or> fst (botGate env False 0 w) = Inr False \<and> fst (snd (botGate env False 0 w)) = 3
        \<or> fst (botGate env False 0 w) = Inl TimeoutError
            \<and> \<not> loaded env (fst (snd (botGate env False 0 w)))
        \<or> fst (botGate env False 0 w) = Inl PageError
            \<and> roundRejects env (fst (snd (botGate env False 0 w)))"
    using r o by (auto simp: maxAttempts_def)
  have 3: "fst (botGate env False 0 w) = Inr True \<or> fst (botGate env False 0 w) = Inr False"
    if "answers env"
    using that o by (auto simp: answers_def)
  from r 2 3 show ?thesis by blast
qed

theorem botGate_terminates_witness:
  "answers captchaPage
   \<and> fst (botGate captchaPage False 0 world0) = Inr False
   \<and> fst (snd (botGate captchaPage False 0 world0)) = 3"
  using botGate_terminates [of captchaPage world0]
  by (simp add: captchaPage_def openPage_def botGate_unfold maxAttempts_def answers_def
      roundRejects_def)

text \<open>
  C6 as first stated has the loop end passed or failed on every page. On a page that keeps
  showing \<^verbatim>\<open>Loading...\<close> the wait of the first round runs out of time and throws: the
  loop ends after one round, neither passed nor failed, and the error leaves
  \<open>fetchAvailableTickets\<close>.
\<close>

theorem botGate_timeout_counterexample:
  "fst (botGate stuckPage False 0 world0) \<noteq> Inr True
   \<and> fst (botGate stuckPage False 0 world0) \<noteq> Inr False
   \<and> fst (botGate stuckPage False 0 world0) = Inl TimeoutError
   \<and> fst (snd (botGate stuckPage False 0 world0)) = 1
   \<and> fst (fetchAvailableTickets stuckPage eventUrl world0) = Inl TimeoutError"
proof -
  have g: "botGate stuckPage False 0 w = (Inl TimeoutError, 1, log WaitLoaded w)" for w
    by (simp add: botGate_unfold stuckPage_def openPage_def maxAttempts_def)
  have "fst (fetchAvailableTickets stuckPage eventUrl world0) = Inl TimeoutError"
    by (simp add: fetchAvailableTickets_def matchEventId_eventUrl cacheGet_def world0_def
        openAndScrape_def getBrowser_def scrape_def navigate_first_try openPage_calls g)
  with g [of world0] show ?thesis by simp
qed

text \<open>
  The same on a page whose session dies when the checkbox is clicked: the click of the
  first round rejects, and the error leaves \<open>fetchAvailableTickets\<close>.
\<close>

lemma crashPage_throws:
  "fst (botGate crashPage False 0 world0) = Inl PageError
   \<and> fst (snd (botGate crashPage False 0 world0)) = 1
   \<and> fst (fetchAvailableTickets crashPage eventUrl world0) = Inl PageError"
proof -
  have g: "botGate crashPage False 0 w =
      (Inl PageError, 1, log ClickCheckbox (afterLoad 1 w))" for w
    by (simp add: botGate_unfold crashPage_def captchaPage_def openPage_def maxAttempts_def)
  have "fst (fetchAvailableTickets crashPage eventUrl world0) = Inl PageError"
    by (simp add: fetchAvailableTickets_def matchEventId_eventUrl cacheGet_def world0_def
        openAndScrape_def getBrowser_def scrape_def navigate_first_try openPage_calls g)
  with g [of world0] show ?thesis by simp
qed
section \<open>Properties of the fetch pipeline\<close>

subsection \<open>What the steps can end with\<close>

lemma navigate_error:
  "fst (navigate env url k b w) = None \<or> fst (navigate env url k b w) = Some NavigationError"
proof (induction env url k b w rule: navigate.induct)
  case (1 env url retryCount navigationSuccess w)
  show ?case
    by (subst (1 2) navigate.simps) (use 1 in \<open>auto simp: Let_def\<close>)
qed

lemma botGate_error:
  "fst (botGate env passed attempt w) = Inl err \<Longrightarrow> err = TimeoutError \<or> err = PageError"
  using botGate_outcome [of env passed attempt w] by auto

lemma acceptAndContinue_error:
  "fst (acceptAndContinue env w) = Some err \<Longrightarrow> err = TimeoutError \<or> err = PageError"
  by (auto simp: acceptAndContinue_def Let_def split: if_splits)

lemma validatePage_throws:
  "fst (validatePage env e w) = Inl ReferenceError
   \<or> fst (validatePage env e w) = Inl TimeoutError
   \<or> fst (validatePage env e w) = Inl PageError"
  by (simp add: validatePage_def isRealEventPage_def pageContent_read_def
      pageContent_assign_def Let_def)

text \<open>
  The body of the \<^verbatim>\<open>try\<close> ends with an error of a step or with the failed result, which
  carries the identifier the body was given.
\<close>

lemma scrape_outcome:
  "fst (scrape env url e w) = Inl NavigationError
   \<or> fst (scrape env url e w) = Inl TimeoutError
   \<or> fst (scrape env url e w) = Inl PageError
   \<or> fst (scrape env url e w) = Inl ReferenceError
   \<or> fst (scrape env url e w) = Inr (ResultObject (failedResult e))"
proof -
  let ?w0 = "log SetUserAgent (log SetViewport w)"
  obtain n wa where nav: "navigate env url 0 False ?w0 = (n, wa)"
    by (cases "navigate env url 0 False ?w0")
  obtain g k wb where gate: "botGate env False 0 wa = (g, k, wb)"
    by (cases "botGate env False 0 wa")
  obtain a wc where acc: "acceptAndContinue env wb = (a, wc)"
    by (cases "acceptAndContinue env wb")
  obtain r wd where val: "validatePage env e wc = (r, wd)"
    by (cases "validatePage env e wc")
  have n: "n = None \<or> n = Some NavigationError"
    using navigate_error [of env url 0 False ?w0] nav by simp
  have g: "g = Inr True \<or> g = Inr False \<or> g = Inl TimeoutError \<or> g = Inl PageError"
    using botGate_outcome [of env False 0 wa] gate by auto
  have a: "a = None \<or> a = Some TimeoutError \<or> a = Some PageError"
    using acceptAndContinue_error [of env wb] acc by (cases a) auto
  have r: "r = Inl ReferenceError \<or> r = Inl TimeoutError \<or> r = Inl PageError"
    using validatePage_throws [of env e wc] val by simp
  show ?thesis
    using nav gate acc val n g a r
    by (auto simp: scrape_def)
qed

lemma openAndScrape_outcome:
  "fst (openAndScrape env url e w) = Inl NavigationError
   \<or> fst (openAndScrape env url e w) = Inl TimeoutError
   \<or> fst (openAndScrape env url e w) = Inl PageError
   \<or> fst (openAndScrape env url e w) = Inl ReferenceError
   \<or> fst (openAndScrape env url e w) = Inr (ResultObject (failedResult e))"
proof -
  obtain b w1 where gb: "getBrowser env w = (b, w1)"
    by (cases "getBrowser env w")
  have b: "b = None \<or> b = Some PageError"
    using gb by (auto simp: getBrowser_def split: if_splits)
  show ?thesis
    using gb b scrape_outcome [of env url e "log NewPage w1"]
    by (auto simp: openAndScrape_def)
qed

lemma fetch_outcome:
  "(matchEventId url = None \<and> fst (fetchAvailableTickets env url w) = Inl InvalidUrlError)
   \<or> (\<exists>p. fst (fetchAvailableTickets env url w) = Inr (NetworkObject p))
   \<or> (\<exists>e. matchEventId url = Some e
          \<and> (fst (fetchAvailableTickets env url w) = Inl NavigationError
              \<or> fst (fetchAvailableTickets env url w) = Inl TimeoutError
              \<or> fst (fetchAvailableTickets env url w) = Inl PageError
              \<or> fst (fetchAvailableTickets env url w) = Inl ReferenceError
              \<or> fst (fetchAvailableTickets env url w) = Inr (ResultObject (failedResult e))))"
proof (cases "matchEventId url")
  case None
  then show ?thesis by (simp add: fetchAvailableTickets_def)
next
  case (Some e)
  show ?thesis
  proof (cases "cacheGet w e")
    case None
    with Some openAndScrape_outcome [of env url e w] show ?thesis
      by (auto simp: fetchAvailableTickets_def)
  next
    case (Some p)
    with \<open>matchEventId url = Some e\<close> show ?thesis
      by (simp add: fetchAvailableTickets_def)
  qed
qed

subsection \<open>The event identifier in the pipeline\<close>

text \<open>
  C9. The identifier that \<open>fetchAvailableTickets\<close> takes from a URL is the run of
  letters and digits after \<^verbatim>\<open>event/\<close> (in any letter case): for the URL of the
  repository's test run it is \<^verbatim>\<open>1E00625CD153457B\<close>. A URL has no identifier exactly when
  it has no \<^verbatim>\<open>event/\<close> followed by a letter or digit, and then the function throws the
  invalid-URL error and leaves the world as it was: no browser is launched, no page is
  opened, nothing is logged. A URL that has an identifier is accepted, and the
  identifier is what the function works with: it does not throw the invalid-URL error,
  it looks into the cache under the identifier and returns the payload of a fresh entry,
  without one it gets the browser and runs the pipeline for the identifier, and every
  result object it returns carries the identifier as its \<^verbatim>\<open>eventId\<close>.
\<close>

theorem eventId_extraction:
  "matchEventId eventUrl = Some ''1E00625CD153457B''
   \<and> (matchEventId url = Some e \<longrightarrow>
        e \<noteq> [] \<and> list_all isAlnum e \<and>
        (\<exists>pre ev post. url = pre @ ev @ e @ post \<and> isEventPrefix ev
           \<and> (post = [] \<or> \<not> isAlnum (hd post))))
   \<and> (matchEventId url = None \<longleftrightarrow> \<not> hasEventSegment url)
   \<and> (\<not> hasEventSegment url \<longrightarrow> fetchAvailableTickets env url w = (Inl InvalidUrlError, w))
   \<and> (matchEventId url = Some e \<longrightarrow>
        fst (fetchAvailableTickets env url w) \<noteq> Inl InvalidUrlError
        \<and> (\<forall>r. fst (fetchAvailableTickets env url w) = Inr (ResultObject r) \<longrightarrow>
               r_eventId r = e)
        \<and> (\<forall>p. cacheGet w e = Some p \<longrightarrow>
               fetchAvailableTickets env url w = (Inr (NetworkObject p), w))
        \<and> (cacheGet w e = None \<longrightarrow>
               fetchAvailableTickets env url w = openAndScrape env url e w))"
proof -
  have 4: "\<not> hasEventSegment url \<Longrightarrow> fetchAvailableTickets env url w = (Inl InvalidUrlError, w)"
    using matchEventId_None [of url] by (simp add: fetchAvailableTickets_def)
  have 5: "fst (fetchAvailableTickets env url w) \<noteq> Inl InvalidUrlError"
    if "matchEventId url = Some e"
    using that fetch_outcome [of url env w] by auto
  have 6: "r_eventId r = e"
    if "matchEventId url = Some e" "fst (fetchAvailableTickets env url w) = Inr (ResultObject r)"
    for r
    using that fetch_outcome [of url env w] by (auto simp: failedResult_def)
  have 7: "fetchAvailableTickets env url w = (Inr (NetworkObject p), w)"
    if "matchEventId url = Some e" "cacheGet w e = Some p" for p
    using that by (simp add: fetchAvailableTickets_def)
  have 8: "fetchAvailableTickets env url w = openAndScrape env url e w"
    if "matchEventId url = Some e" "cacheGet w e = None"
    using that by (simp add: fetchAvailableTickets_def)
  have 2: "matchEventId url = Some e \<Longrightarrow>
        e \<noteq> [] \<and> list_all isAlnum e \<and>
        (\<exists>pre ev post. url = pre @ ev @ e @ post \<and> isEventPrefix ev
           \<and> (post = [] \<or> \<not> isAlnum (hd post)))"
    by (rule matchEventId_Some)
  note 1 = matchEventId_eventUrl and 3 = matchEventId_None [of url]
  show ?thesis
    apply (intro conjI impI allI)
    using 1 2 3 4 5 6 7 8 by blast+
qed

lemma captchaPage_fails:
  "fst (fetchAvailableTickets captchaPage eventUrl world0) =
     Inr (ResultObject (failedResult ''1E00625CD153457B''))"
  by (simp add: fetchAvailableTickets_def matchEventId_eventUrl cacheGet_def world0_def
      openAndScrape_def getBrowser_def scrape_def navigate.simps botGate_unfold
      captchaPage_def openPage_def maxRetries_def maxAttempts_def)

theorem eventId_extraction_witness:
  "matchEventId homeUrl = None
   \<and> fetchAvailableTickets openPage homeUrl world0 = (Inl InvalidUrlError, world0)
   \<and> effects world0 = [] \<and> browserCache world0 = False
   \<and> matchEventId eventUrl = Some ''1E00625CD153457B''
   \<and> cacheGet world0 ''1E00625CD153457B'' = None
   \<and> fetchAvailableTickets captchaPage eventUrl world0 =
       openAndScrape captchaPage eventUrl ''1E00625CD153457B'' world0
   \<and> fst (fetchAvailableTickets captchaPage eventUrl world0) =
       Inr (ResultObject (failedResult ''1E00625CD153457B''))
   \<and> r_eventId (failedResult ''1E00625CD153457B'') = ''1E00625CD153457B''"
  using eventId_extraction [of homeUrl "[]" openPage world0]
        eventId_extraction [of eventUrl "''1E00625CD153457B''" captchaPage world0]
        captchaPage_fails
  by (simp add: matchEventId_homeUrl matchEventId_eventUrl world0_def cacheGet_def
      failedResult_def)

subsection \<open>The cache\<close>

text \<open>
  A call that finds a fresh entry returns the payload of the entry and leaves the world as
  it was. The end of the function writes the network payload, and nothing else of the
  result, into the cache.
\<close>

lemma cache_hit_short_circuits:
  "matchEventId url = Some e \<Longrightarrow> networkDataCache w e = Some c \<Longrightarrow>
   now w - entry_timestamp c < 5000 \<Longrightarrow>
   fetchAvailableTickets env url w = (Inr (NetworkObject (entry_data c)), w)"
  by (simp add: fetchAvailableTickets_def cacheGet_def)

lemma finishFetch_cache_entry:
  "hasLayout sd \<Longrightarrow> ticketList \<noteq> [] \<Longrightarrow>
   networkDataCache (snd (finishFetch env e ticketList sd (Some nd) w)) e =
     Some \<lparr>entry_data = nd, entry_timestamp = now w\<rparr>"
  by (simp add: finishFetch_def Let_def log_def)

text \<open>No step before the end of the function writes to the cache.\<close>

lemma navigate_cache:
  "networkDataCache (snd (navigate env url k b w)) = networkDataCache w"
proof (induction env url k b w rule: navigate.induct)
  case (1 env url retryCount navigationSuccess w)
  show ?case
    by (subst navigate.simps)
       (use 1 in \<open>auto simp: Let_def log_def sleep_def captureScreenshotN_def\<close>)
qed

lemma botGate_cache:
  "networkDataCache (snd (snd (botGate env passed attempt w))) = networkDataCache w"
proof (induction env passed attempt w rule: botGate.induct)
  case (1 env passed attempt w)
  show ?case
    by (subst botGate.simps)
       (use 1 in \<open>auto simp: Let_def log_def sleep_def captureScreenshotN_def\<close>)
qed

text \<open>
  The validation of the page always throws, so the end of the function is never reached:
  no call of \<open>fetchAvailableTickets\<close> changes the cache, and from the empty cache of a
  fresh module no call ever finds an entry.
\<close>

lemma fetch_never_caches:
  "networkDataCache (snd (fetchAvailableTickets env url w)) = networkDataCache w"
proof -
  have vc: "networkDataCache (snd (validatePage env e w3)) = networkDataCache w3" for e w3
    by (simp add: validatePage_def isRealEventPage_def pageContent_read_def
        pageContent_assign_def Let_def log_def sleep_def captureScreenshot_def)
  have ac: "networkDataCache (snd (acceptAndContinue env w2)) = networkDataCache w2" for w2
    by (simp add: acceptAndContinue_def Let_def log_def captureScreenshot_def)
  have sc: "networkDataCache (snd (scrape env url e w1)) = networkDataCache w1" for e w1
  proof -
    let ?w0 = "log SetUserAgent (log SetViewport w1)"
    obtain n wa where nav: "navigate env url 0 False ?w0 = (n, wa)"
      by (cases "navigate env url 0 False ?w0")
    have wa: "networkDataCache wa = networkDataCache w1"
      using navigate_cache [of env url 0 False ?w0] nav
      by (simp add: log_def)
    obtain g k wb where gate: "botGate env False 0 wa = (g, k, wb)"
      by (cases "botGate env False 0 wa")
    have wb: "networkDataCache wb = networkDataCache w1"
      using botGate_cache [of env False 0 wa] gate wa by simp
    obtain a wc where acc: "acceptAndContinue env wb = (a, wc)"
      by (cases "acceptAndContinue env wb")
    have wc: "networkDataCache wc = networkDataCache w1"
      using ac [of wb] acc wb by simp
    obtain r wd where val: "validatePage env e wc = (r, wd)"
      by (cases "validatePage env e wc")
    have wd: "networkDataCache wd = networkDataCache w1"
      using vc [of e wc] val wc by simp
    from validatePage_throws [of env e wc] val obtain err where r: "r = Inl err"
      by auto
    show ?thesis
      using nav gate acc val wa wb wc wd r
      by (auto simp: scrape_def captureScreenshot_def log_def
          split: option.splits sum.splits bool.splits)
  qed
  have oc: "networkDataCache (snd (openAndScrape env url e w)) = networkDataCache w" for e
    by (auto simp: openAndScrape_def getBrowser_def sc log_def)
  show ?thesis
    by (auto simp: fetchAvailableTickets_def oc split: option.splits)
qed

lemma fetches_find_no_entry:
  "networkDataCache w = Map.empty \<Longrightarrow>
   cacheGet (snd (fetchAvailableTickets env url w)) e = None"
  by (simp add: cacheGet_def fetch_never_caches)

subsection \<open>The page validation\<close>

text \<open>
  A fetch in which the bot check loop ends not passed returns the failed result and does
  not throw.
\<close>

lemma gate_failure_returns:
  assumes "matchEventId url = Some e" and "cacheGet w e = None"
    and "getBrowser env w = (None, w0)"
    and "\<not> rejects env NewPage 0" and "\<not> rejects env SetViewport 0"
    and "\<not> rejects env SetUserAgent 0"
    and "navigate env url 0 False
           (log SetUserAgent (log SetViewport (log NewPage w0))) = (None, w1)"
    and "botGate env False 0 w1 = (Inr False, k, w2)"
  shows "fetchAvailableTickets env url w =
           (Inr (ResultObject (failedResult e)), captureScreenshot ''final_failed_status'' w2)"
  using assms by (simp add: fetchAvailableTickets_def openAndScrape_def scrape_def)

text \<open>
  C3. What the function does when the final validation of the page fails: on a page that
  has passed the bot check and has been redirected away from the event, and on an event
  page whose content asks the visitor to prove to be human, the function throws a
  \<^verbatim>\<open>ReferenceError\<close>; and on no page at all does it return the result with
  \<^verbatim>\<open>botCheck: true\<close>.
\<close>

theorem validation_failure_throws:
  "fst (fetchAvailableTickets redirectedPage eventUrl world0) = Inl ReferenceError
   \<and> fst (fetchAvailableTickets challengePage eventUrl world0) = Inl ReferenceError
   \<and> fst (fetchAvailableTickets env url w) \<noteq> Inr (ResultObject (botCheckResult e))"
proof -
  have 1: "fst (fetchAvailableTickets redirectedPage eventUrl world0) = Inl ReferenceError"
    by (simp add: fetchAvailableTickets_def matchEventId_eventUrl cacheGet_def world0_def
        openAndScrape_def getBrowser_def scrape_def navigate.simps botGate_unfold
        redirectedPage_def openPage_def maxRetries_def maxAttempts_def acceptAndContinue_def
        validatePage_def isRealEventPage_def pageContent_read_def pageContent_assign_def
        Let_def homeUrl_def blockMarker_def)
  have u: "str_includes eventUrl ''/event/1E00625CD153457B''"
    by (simp add: eventUrl_def)
  have 2: "fst (fetchAvailableTickets challengePage eventUrl world0) = Inl ReferenceError"
    by (simp add: fetchAvailableTickets_def matchEventId_eventUrl cacheGet_def world0_def
        openAndScrape_def getBrowser_def scrape_def navigate.simps botGate_unfold
        challengePage_def openPage_def maxRetries_def maxAttempts_def acceptAndContinue_def
        validatePage_def isRealEventPage_def pageContent_read_def pageContent_assign_def
        Let_def blockMarker_def u)
  have 3: "fst (fetchAvailableTickets env url w) \<noteq> Inr (ResultObject (botCheckResult e))"
    using fetch_outcome [of url env w]
    by (auto simp: failedResult_def botCheckResult_def)
  from 1 2 3 show ?thesis by simp
qed

theorem validation_failure_throws_witness:
  "fst (fetchAvailableTickets redirectedPage eventUrl world0) = Inl ReferenceError
   \<and> fst (fetchAvailableTickets redirectedPage eventUrl world0) \<noteq>
       Inr (ResultObject (botCheckResult ''1E00625CD153457B''))"
  using validation_failure_throws [of redirectedPage eventUrl world0 "''1E00625CD153457B''"]
  by simp

section \<open>Properties of the network capture\<close>

lemma captureStep_inv: "captureInv c \<Longrightarrow> captureInv (captureStep eventId c ev)"
  by (cases ev) (auto simp: captureInv_def resolve_def split: option.splits)

lemma foldl_captureStep_inv:
  "captureInv c \<Longrightarrow> captureInv (foldl (captureStep eventId) c evs)"
  by (induction evs arbitrary: c) (simp_all add: captureStep_inv)

lemma runCapture_inv: "captureInv (runCapture eventId evs)"
  unfolding runCapture_def
  by (rule foldl_captureStep_inv) (simp add: captureInv_def startCapture_def)

lemma runCapture_timer: "\<not> timerPending (runCapture eventId evs)"
  by (simp add: runCapture_def resolve_def)

text \<open>
  The promise is always resolved. When it is resolved with a payload, \<^verbatim>\<open>page.off\<close> has
  not been called and the handler is still attached; when it is resolved with
  \<^verbatim>\<open>null\<close>, \<^verbatim>\<open>page.off\<close> has been called once.
\<close>

lemma capture_detach_count:
  "settled (runCapture eventId evs) \<noteq> None
   \<and> (fetchNetworkData eventId evs \<noteq> None \<longrightarrow>
        offCalls (runCapture eventId evs) = 0 \<and> listening (runCapture eventId evs))
   \<and> (fetchNetworkData eventId evs = None \<longrightarrow>
        offCalls (runCapture eventId evs) = 1 \<and> \<not> listening (runCapture eventId evs))"
  using runCapture_inv [of eventId evs] runCapture_timer [of eventId evs]
  by (auto simp: captureInv_def fetchNetworkData_def split: option.splits)

lemma capture_openPage:
  "fetchNetworkData ''1E00625CD153457B'' (responses openPage) = Some payload0
   \<and> offCalls (runCapture ''1E00625CD153457B'' (responses openPage)) = 0
   \<and> listening (runCapture ''1E00625CD153457B'' (responses openPage))
   \<and> fetchNetworkData ''1E00625CD153457B'' [] = None
   \<and> offCalls (runCapture ''1E00625CD153457B'' []) = 1
   \<and> \<not> listening (runCapture ''1E00625CD153457B'' [])"
  by (simp add: fetchNetworkData_def runCapture_def startCapture_def resolve_def openPage_def)
section \<open>Properties of the detector on the store\<close>

lemma keeps_refl: "keeps n h h"
  by (simp add: keeps_def)

lemma keeps_trans: "keeps n h h1 \<Longrightarrow> keeps n h1 h2 \<Longrightarrow> keeps n h h2"
  by (simp add: keeps_def)

lemma keeps_length: "keeps n h h' \<Longrightarrow> n \<le> length h \<Longrightarrow> n \<le> length h'"
  by (simp add: keeps_def)

lemma keeps_alloc: "alloc c h = (a, h') \<Longrightarrow> n \<le> length h \<Longrightarrow> keeps n h h'"
  by (auto simp: keeps_def alloc_def)

lemma alloc_addr: "alloc c h = (a, h') \<Longrightarrow> a = length h"
  by (simp add: alloc_def)

lemma keeps_overwrite: "n \<le> a \<Longrightarrow> keeps n h (overwrite a c h)"
  by (simp add: keeps_def overwrite_def)

lemma keeps_pairsOf: "pairsOf h ts = (r, h') \<Longrightarrow> n \<le> length h \<Longrightarrow> keeps n h h'"
proof (induction ts arbitrary: h r h')
  case Nil
  then show ?case by (simp add: keeps_refl)
next
  case (Cons t ts)
  show ?case
  proof (cases "\<exists>l. load h t = Some (ListingCell l)")
    case False
    with Cons.prems show ?thesis
      by (auto simp: keeps_refl split: option.splits cell.splits)
  next
    case True
    then obtain l where l: "load h t = Some (ListingCell l)" by auto
    obtain p h1 where al: "alloc (PairCell (sectionRow l) t) h = (p, h1)"
      by (cases "alloc (PairCell (sectionRow l) t) h")
    obtain r2 h2 where rec: "pairsOf h1 ts = (r2, h2)" by (cases "pairsOf h1 ts")
    have k1: "keeps n h h1" using al Cons.prems(2) by (rule keeps_alloc)
    then have "n \<le> length h1" using Cons.prems(2) by (rule keeps_length)
    with rec have "keeps n h1 h2" by (rule Cons.IH)
    with k1 have "keeps n h h2" by (rule keeps_trans)
    moreover have "h' = h2"
      using Cons.prems(1) l al rec by (cases r2) simp_all
    ultimately show ?thesis by simp
  qed
qed

lemma keeps_fillMap: "fillMap h m ps = (b, h') \<Longrightarrow> n \<le> m \<Longrightarrow> keeps n h h'"
proof (induction ps arbitrary: h b h')
  case Nil
  then show ?case by (simp add: keeps_refl)
next
  case (Cons p ps)
  show ?case
  proof (cases "\<exists>es k v. load h m = Some (MapCell es) \<and> load h p = Some (PairCell k v)")
    case False
    with Cons.prems show ?thesis
      by (auto simp: keeps_refl split: option.splits cell.splits)
  next
    case True
    then obtain es k v where "load h m = Some (MapCell es)" "load h p = Some (PairCell k v)"
      by auto
    with Cons.prems(1)
    have "fillMap (overwrite m (MapCell (Map_set es k v)) h) m ps = (b, h')"
      by simp
    then have "keeps n (overwrite m (MapCell (Map_set es k v)) h) h'"
      using Cons.prems(2) by (rule Cons.IH)
    with keeps_overwrite [OF Cons.prems(2)] show ?thesis by (rule keeps_trans)
  qed
qed

lemma keeps_ticketMap_h:
  assumes "ticketMap_h h arr = (r, h')" and n: "n \<le> length h"
  shows "keeps n h h'"
proof (cases "\<exists>ts. load h arr = Some (ArrayCell ts)")
  case False
  with assms show ?thesis
    by (auto simp: ticketMap_h_def keeps_refl split: option.splits cell.splits)
next
  case True
  then obtain ts where ts: "load h arr = Some (ArrayCell ts)" by auto
  obtain r1 h1 where p: "pairsOf h ts = (r1, h1)" by (cases "pairsOf h ts")
  have k1: "keeps n h h1" using p n by (rule keeps_pairsOf)
  show ?thesis
  proof (cases r1)
    case None
    with ts p k1 assms(1) show ?thesis by (simp add: ticketMap_h_def)
  next
    case (Some ps)
    obtain pa h2 where a2: "alloc (ArrayCell ps) h1 = (pa, h2)"
      by (cases "alloc (ArrayCell ps) h1")
    obtain m h3 where a3: "alloc (MapCell []) h2 = (m, h3)"
      by (cases "alloc (MapCell []) h2")
    obtain b h4 where f: "fillMap h3 m ps = (b, h4)" by (cases "fillMap h3 m ps")
    have n1: "n \<le> length h1" using k1 n by (rule keeps_length)
    have k2: "keeps n h1 h2" using a2 n1 by (rule keeps_alloc)
    have n2: "n \<le> length h2" using k2 n1 by (rule keeps_length)
    have k3: "keeps n h2 h3" using a3 n2 by (rule keeps_alloc)
    have "n \<le> m" using alloc_addr [OF a3] n2 by simp
    with f have k4: "keeps n h3 h4" by (rule keeps_fillMap)
    have "keeps n h h4"
      using k1 k2 k3 k4 by (blast intro: keeps_trans)
    moreover have "h' = h4"
      using assms(1) ts p Some a2 a3 f by (cases b) (simp_all add: ticketMap_h_def)
    ultimately show ?thesis by simp
  qed
qed

lemma keeps_push:
  assumes "push arr c h = (b, h')" and a: "n \<le> arr"
  shows "keeps n h h'"
proof (cases "\<exists>xs. load h arr = Some (ArrayCell xs)")
  case False
  with assms show ?thesis
    by (auto simp: push_def keeps_refl split: option.splits cell.splits)
next
  case True
  then obtain xs where xs: "load h arr = Some (ArrayCell xs)" by auto
  then have "arr < length h" by (simp add: load_def split: if_splits)
  with a have n: "n \<le> length h" by simp
  obtain x h1 where al: "alloc (ChangeCell c) h = (x, h1)" by (cases "alloc (ChangeCell c) h")
  have "keeps n h h1" using al n by (rule keeps_alloc)
  moreover have "keeps n h1 (overwrite arr (ArrayCell (xs @ [x])) h1)"
    using a by (rule keeps_overwrite)
  moreover have "h' = overwrite arr (ArrayCell (xs @ [x])) h1"
    using assms(1) xs al by (simp add: push_def)
  ultimately show ?thesis by (simp add: keeps_trans)
qed

lemma keeps_priceLoop_h:
  "priceLoop_h h old ch es = (b, h') \<Longrightarrow> n \<le> ch \<Longrightarrow> keeps n h h'"
proof (induction es arbitrary: h b h')
  case Nil
  then show ?case by (simp add: keeps_refl)
next
  case (Cons e es)
  obtain k a where e: "e = (k, a)" by (cases e)
  note IH = Cons.IH [OF _ Cons.prems(2)]
  show ?case
  proof (cases "Map_get old k")
    case None
    with Cons.prems(1) e show ?thesis by (simp add: IH)
  next
    case (Some ot)
    show ?thesis
    proof (cases "\<exists>oldTicket newTicket. load h ot = Some (ListingCell oldTicket)
                    \<and> load h a = Some (ListingCell newTicket)")
      case False
      with Cons.prems(1) e Some show ?thesis
        by (auto simp: keeps_refl split: option.splits cell.splits)
    next
      case True
      then obtain oldTicket newTicket where l: "load h ot = Some (ListingCell oldTicket)"
        "load h a = Some (ListingCell newTicket)" by auto
      show ?thesis
      proof (cases "price oldTicket \<noteq> price newTicket")
        case False
        with Cons.prems(1) e Some l show ?thesis by (simp add: IH)
      next
        case True
        obtain b1 h1 where p: "push ch (PRICE_CHANGE k (price oldTicket) (price newTicket)) h = (b1, h1)"
          by (cases "push ch (PRICE_CHANGE k (price oldTicket) (price newTicket)) h")
        have k1: "keeps n h h1" using p Cons.prems(2) by (rule keeps_push)
        show ?thesis
        proof (cases b1)
          case False
          with Cons.prems(1) e Some l True p k1 show ?thesis by simp
        next
          case b: True
          with Cons.prems(1) e Some l True p
          have "priceLoop_h h1 old ch es = (b, h')" by simp
          then have "keeps n h1 h'" by (rule IH)
          with k1 show ?thesis by (rule keeps_trans)
        qed
      qed
    qed
  qed
qed

lemma keeps_sectionLoop_h:
  "sectionLoop_h h old ch es = (b, h') \<Longrightarrow> n \<le> ch \<Longrightarrow> keeps n h h'"
proof (induction es arbitrary: h b h')
  case Nil
  then show ?case by (simp add: keeps_refl)
next
  case (Cons e es)
  obtain k a where e: "e = (k, a)" by (cases e)
  note IH = Cons.IH [OF _ Cons.prems(2)]
  show ?case
  proof (cases "Map_has old k")
    case True
    with Cons.prems(1) e show ?thesis by (simp add: IH)
  next
    case False
    show ?thesis
    proof (cases "\<exists>newTicket. load h a = Some (ListingCell newTicket)")
      case nl: False
      with Cons.prems(1) e False show ?thesis
        by (auto simp: keeps_refl split: option.splits cell.splits)
    next
      case True
      then obtain newTicket where l: "load h a = Some (ListingCell newTicket)" by auto
      obtain b1 h1 where p: "push ch (NEW_SECTION k (price newTicket)) h = (b1, h1)"
        by (cases "push ch (NEW_SECTION k (price newTicket)) h")
      have k1: "keeps n h h1" using p Cons.prems(2) by (rule keeps_push)
      show ?thesis
      proof (cases b1)
        case bf: False
        with Cons.prems(1) e False l p k1 show ?thesis by simp
      next
        case bt: True
        with Cons.prems(1) e False l p
        have "sectionLoop_h h1 old ch es = (b, h')" by simp
        then have "keeps n h1 h'" by (rule IH)
        with k1 show ?thesis by (rule keeps_trans)
      qed
    qed
  qed
qed

lemma keeps_detectChanges_h:
  assumes "detectChanges_h h oldData newData = (r, h')"
  shows "keeps (length h) h h'"
proof -
  let ?n = "length h"
  obtain ch h1 where a1: "alloc (ArrayCell []) h = (ch, h1)" by (cases "alloc (ArrayCell []) h")
  have k1: "keeps ?n h h1" using a1 by (rule keeps_alloc) simp
  have ch: "?n \<le> ch" using alloc_addr [OF a1] by simp
  have n1: "?n \<le> length h1" using k1 by (rule keeps_length) simp
  show ?thesis
  proof (cases oldData)
    case None
    with assms a1 k1 show ?thesis by (simp add: detectChanges_h_def)
  next
    case (Some od)
    show ?thesis
    proof (cases "\<exists>ota nta. load h1 od = Some (PayloadCell (Some ota))
                  \<and> load h1 newData = Some (PayloadCell (Some nta))")
      case False
      then have "h' = h1"
        using assms Some a1
        by (auto simp: detectChanges_h_def split: option.splits cell.splits)
      with k1 show ?thesis by simp
    next
      case True
      then obtain ota nta where o: "load h1 od = Some (PayloadCell (Some ota))"
        and nw: "load h1 newData = Some (PayloadCell (Some nta))" by auto
      obtain r2 h2 where t2: "ticketMap_h h1 ota = (r2, h2)" by (cases "ticketMap_h h1 ota")
      have k2: "keeps ?n h1 h2" using t2 n1 by (rule keeps_ticketMap_h)
      have n2: "?n \<le> length h2" using k2 n1 by (rule keeps_length)
      have k12: "keeps ?n h h2" using k1 k2 by (rule keeps_trans)
      show ?thesis
      proof (cases r2)
        case None
        with assms Some a1 o nw t2 k12 show ?thesis by (simp add: detectChanges_h_def)
      next
        case r2: (Some oldTickets)
        obtain r3 h3 where t3: "ticketMap_h h2 nta = (r3, h3)" by (cases "ticketMap_h h2 nta")
        have k3: "keeps ?n h2 h3" using t3 n2 by (rule keeps_ticketMap_h)
        have k13: "keeps ?n h h3" using k12 k3 by (rule keeps_trans)
        show ?thesis
        proof (cases r3)
          case None
          with assms Some a1 o nw t2 r2 t3 k13 show ?thesis by (simp add: detectChanges_h_def)
        next
          case r3: (Some newTickets)
          show ?thesis
          proof (cases "\<exists>oes nes. entriesOf h3 oldTickets = Some oes \<and> entriesOf h3 newTickets = Some nes")
            case False
            then have "h' = h3"
              using assms Some a1 o nw t2 r2 t3 r3
              by (auto simp: detectChanges_h_def split: option.splits)
            with k13 show ?thesis by simp
          next
            case True
            then obtain oes nes where en: "entriesOf h3 oldTickets = Some oes"
              "entriesOf h3 newTickets = Some nes" by auto
            obtain b4 h4 where p4: "priceLoop_h h3 oes ch nes = (b4, h4)"
              by (cases "priceLoop_h h3 oes ch nes")
            obtain b5 h5 where p5: "sectionLoop_h h4 oes ch nes = (b5, h5)"
              by (cases "sectionLoop_h h4 oes ch nes")
            have k4: "keeps ?n h3 h4" using p4 ch by (rule keeps_priceLoop_h)
            have k5: "keeps ?n h4 h5" using p5 ch by (rule keeps_sectionLoop_h)
            have k14: "keeps ?n h h4" using k13 k4 by (rule keeps_trans)
            have k15: "keeps ?n h h5" using k14 k5 by (rule keeps_trans)
            have "h' = h4 \<or> h' = h5"
              using assms Some a1 o nw t2 r2 t3 r3 en p4 p5
              by (cases b4; cases b5) (simp_all add: detectChanges_h_def)
            with k14 k15 show ?thesis by auto
          qed
        qed
      qed
    qed
  qed
qed


lemma keeps_load:
  assumes "keeps (length h) h h'" and "load h a = Some c"
  shows "load h' a = Some c"
proof -
  from assms(2) have a: "a < length h" and c: "h ! a = c"
    by (auto simp: load_def split: if_splits)
  from assms(1) have "take (length h) h' = h" and "length h \<le> length h'"
    by (simp_all add: keeps_def)
  then have "h' ! a = h ! a" and "a < length h'"
    using a by (metis nth_take, simp)
  with c show ?thesis by (simp add: load_def)
qed

lemma keeps_listingsAt:
  "keeps (length h) h h' \<Longrightarrow> listingsAt h as = Some ls \<Longrightarrow> listingsAt h' as = Some ls"
proof (induction as arbitrary: ls)
  case Nil
  then show ?case by simp
next
  case (Cons a as)
  from Cons.prems(2) obtain l ls' where l: "load h a = Some (ListingCell l)"
    and r: "listingsAt h as = Some ls'" and ls: "ls = l # ls'"
    by (auto split: option.splits cell.splits)
  from keeps_load [OF Cons.prems(1) l] Cons.IH [OF Cons.prems(1) r] ls show ?case
    by simp
qed

lemma keeps_payloadAt:
  assumes "keeps (length h) h h'" and "payloadAt h a = Some p"
  shows "payloadAt h' a = Some p"
proof -
  from assms(2) obtain t where c: "load h a = Some (PayloadCell t)"
    by (auto simp: payloadAt_def split: option.splits cell.splits)
  note c' = keeps_load [OF assms(1) c]
  show ?thesis
  proof (cases t)
    case None
    with assms(2) c c' show ?thesis by (simp add: payloadAt_def)
  next
    case (Some arr)
    with assms(2) c obtain ts ls where ts: "load h arr = Some (ArrayCell ts)"
      and ls: "listingsAt h ts = Some ls" and p: "p = \<lparr>tickets = Some ls\<rparr>"
      by (auto simp: payloadAt_def split: option.splits cell.splits)
    from keeps_load [OF assms(1) ts] keeps_listingsAt [OF assms(1) ls] c' Some p
    show ?thesis by (simp add: payloadAt_def)
  qed
qed

subsection \<open>The detector on the store computes what \<open>detectChanges\<close> computes\<close>

lemma keeps_mono: "m \<le> n \<Longrightarrow> keeps n h h' \<Longrightarrow> keeps m h h'"
  unfolding keeps_def by (metis min.absorb1 take_take)

lemma load_append: "load h a = Some c \<Longrightarrow> load (h @ xs) a = Some c"
  by (auto simp: load_def nth_append split: if_splits)

lemma load_new: "load (h @ [c]) (length h) = Some c"
  by (simp add: load_def)

lemma load_overwrite:
  "load (overwrite m c h) a = (if a = m \<and> m < length h then Some c else load h a)"
  by (simp add: load_def overwrite_def)

lemma keeps_pairsAt:
  "keeps (length h) h h' \<Longrightarrow> pairsAt h ps = Some kvs \<Longrightarrow> pairsAt h' ps = Some kvs"
proof (induction ps arbitrary: kvs)
  case Nil
  then show ?case by simp
next
  case (Cons p ps)
  from Cons.prems(2) obtain k v kvs' where l: "load h p = Some (PairCell k v)"
    and r: "pairsAt h ps = Some kvs'" and kvs: "kvs = (k, v) # kvs'"
    by (auto split: option.splits cell.splits)
  from keeps_load [OF Cons.prems(1) l] Cons.IH [OF Cons.prems(1) r] kvs show ?case
    by simp
qed

lemma pairsOf_pairs:
  "listingsAt h ts = Some ls \<Longrightarrow>
   \<exists>ps h'. pairsOf h ts = (Some ps, h') \<and> keeps (length h) h h'
      \<and> pairsAt h' ps = Some (zip (map sectionRow ls) ts)"
proof (induction ts arbitrary: h ls)
  case Nil
  then show ?case by (simp add: keeps_refl)
next
  case (Cons t ts)
  from Cons.prems obtain l ls' where l: "load h t = Some (ListingCell l)"
    and r: "listingsAt h ts = Some ls'" and ls: "ls = l # ls'"
    by (auto split: option.splits cell.splits)
  let ?h1 = "h @ [PairCell (sectionRow l) t]"
  have al: "alloc (PairCell (sectionRow l) t) h = (length h, ?h1)"
    by (simp add: alloc_def)
  have k1: "keeps (length h) h ?h1" by (simp add: keeps_def)
  have "listingsAt ?h1 ts = Some ls'" using k1 r by (rule keeps_listingsAt)
  from Cons.IH [OF this] obtain ps h2 where p: "pairsOf ?h1 ts = (Some ps, h2)"
    and k2: "keeps (length ?h1) ?h1 h2"
    and pa: "pairsAt h2 ps = Some (zip (map sectionRow ls') ts)"
    by blast
  have "load ?h1 (length h) = Some (PairCell (sectionRow l) t)" by (rule load_new)
  with k2 have lp: "load h2 (length h) = Some (PairCell (sectionRow l) t)"
    by (rule keeps_load)
  have "keeps (length h) ?h1 h2" using k2 by (rule keeps_mono [rotated]) simp
  with k1 have k: "keeps (length h) h h2" by (rule keeps_trans)
  have "pairsOf h (t # ts) = (Some (length h # ps), h2)"
    using l al p by simp
  moreover have "pairsAt h2 (length h # ps) = Some (zip (map sectionRow ls) (t # ts))"
    using lp pa ls by simp
  ultimately show ?case using k by blast
qed

lemma pairsAt_overwrite:
  "pairsAt h ps = Some kvs \<Longrightarrow> load h m = Some (MapCell es) \<Longrightarrow>
   pairsAt (overwrite m c h) ps = Some kvs"
proof (induction ps arbitrary: kvs)
  case Nil
  then show ?case by simp
next
  case (Cons p ps)
  from Cons.prems(1) obtain k v kvs' where l: "load h p = Some (PairCell k v)"
    and r: "pairsAt h ps = Some kvs'" and kvs: "kvs = (k, v) # kvs'"
    by (auto split: option.splits cell.splits)
  from l Cons.prems(2) have "p \<noteq> m" by auto
  with l have "load (overwrite m c h) p = Some (PairCell k v)"
    by (simp add: load_overwrite)
  with Cons.IH [OF r Cons.prems(2)] kvs show ?case by simp
qed

lemma fillMap_entries:
  "load h m = Some (MapCell es) \<Longrightarrow> pairsAt h ps = Some kvs \<Longrightarrow>
   \<exists>h'. fillMap h m ps = (True, h')
      \<and> load h' m = Some (MapCell (foldl (\<lambda>m (k, v). Map_set m k v) es kvs))"
proof (induction ps arbitrary: h es kvs)
  case Nil
  then show ?case by simp
next
  case (Cons p ps)
  from Cons.prems(2) obtain k v kvs' where l: "load h p = Some (PairCell k v)"
    and r: "pairsAt h ps = Some kvs'" and kvs: "kvs = (k, v) # kvs'"
    by (auto split: option.splits cell.splits)
  let ?h1 = "overwrite m (MapCell (Map_set es k v)) h"
  from Cons.prems(1) have "m < length h" by (simp add: load_def split: if_splits)
  then have m1: "load ?h1 m = Some (MapCell (Map_set es k v))" by (simp add: load_overwrite)
  have p1: "pairsAt ?h1 ps = Some kvs'" using r Cons.prems(1) by (rule pairsAt_overwrite)
  from Cons.IH [OF m1 p1] obtain h' where "fillMap ?h1 m ps = (True, h')"
    and "load h' m = Some (MapCell (foldl (\<lambda>m (k, v). Map_set m k v) (Map_set es k v) kvs'))"
    by blast
  with Cons.prems(1) l kvs show ?case by simp
qed

lemma ticketMap_h_entries:
  assumes arr: "load h arr = Some (ArrayCell ts)" and ls: "listingsAt h ts = Some ls"
  shows "\<exists>m h'. ticketMap_h h arr = (Some m, h') \<and> keeps (length h) h h'
           \<and> entriesOf h' m = Some (new_Map (zip (map sectionRow ls) ts))"
proof -
  from pairsOf_pairs [OF ls] obtain ps h1 where p: "pairsOf h ts = (Some ps, h1)"
    and k1: "keeps (length h) h h1" and pa: "pairsAt h1 ps = Some (zip (map sectionRow ls) ts)"
    by blast
  let ?h2 = "h1 @ [ArrayCell ps]"
  let ?h3 = "?h2 @ [MapCell []]"
  let ?m = "length ?h2"
  have a2: "alloc (ArrayCell ps) h1 = (length h1, ?h2)" by (simp add: alloc_def)
  have a3: "alloc (MapCell []) ?h2 = (?m, ?h3)" by (simp add: alloc_def)
  have "keeps (length h1) h1 ?h3" by (simp add: keeps_def)
  then have pa3: "pairsAt ?h3 ps = Some (zip (map sectionRow ls) ts)"
    using pa by (rule keeps_pairsAt)
  have m3: "load ?h3 ?m = Some (MapCell [])" using load_new [of ?h2] by simp
  from fillMap_entries [OF m3 pa3] obtain h4 where f: "fillMap ?h3 ?m ps = (True, h4)"
    and e: "load h4 ?m = Some (MapCell (new_Map (zip (map sectionRow ls) ts)))"
    by (auto simp: new_Map_def)
  have t: "ticketMap_h h arr = (Some ?m, h4)"
    using arr p a2 a3 f by (simp add: ticketMap_h_def)
  have "keeps (length h) h h4"
    using t by (rule keeps_ticketMap_h) simp
  with t e show ?thesis by (auto simp: entriesOf_def)
qed


lemma sameExcept_refl: "sameExcept ch h h"
  by (simp add: sameExcept_def)

lemma sameExcept_trans: "sameExcept ch h h1 \<Longrightarrow> sameExcept ch h1 h2 \<Longrightarrow> sameExcept ch h h2"
  by (simp add: sameExcept_def)

lemma changesAt_sameExcept:
  "sameExcept ch h h' \<Longrightarrow> load h ch = Some (ArrayCell ys) \<Longrightarrow>
   changesAt h xs = Some cs \<Longrightarrow> changesAt h' xs = Some cs"
proof (induction xs arbitrary: cs)
  case Nil
  then show ?case by simp
next
  case (Cons x xs)
  from Cons.prems(3) obtain c cs' where l: "load h x = Some (ChangeCell c)"
    and r: "changesAt h xs = Some cs'" and cs: "cs = c # cs'"
    by (auto split: option.splits cell.splits)
  from l Cons.prems(2) have "x \<noteq> ch" by auto
  with l Cons.prems(1) have "load h' x = Some (ChangeCell c)"
    by (simp add: sameExcept_def)
  with Cons.IH [OF Cons.prems(1,2) r] cs show ?case by simp
qed

lemma changesAt_snoc:
  "changesAt h xs = Some cs \<Longrightarrow> load h a = Some (ChangeCell c) \<Longrightarrow>
   changesAt h (xs @ [a]) = Some (cs @ [c])"
  by (induction xs arbitrary: cs) (auto split: option.splits cell.splits)

lemma push_changes:
  assumes "changeArrayAt h ch = Some cs"
  shows "\<exists>h'. push ch c h = (True, h') \<and> changeArrayAt h' ch = Some (cs @ [c])
           \<and> sameExcept ch h h'"
proof -
  from assms obtain xs where xs: "load h ch = Some (ArrayCell xs)"
    and cs: "changesAt h xs = Some cs"
    by (auto simp: changeArrayAt_def split: option.splits cell.splits)
  then have lt: "ch < length h" by (simp add: load_def split: if_splits)
  let ?h1 = "h @ [ChangeCell c]"
  let ?h' = "overwrite ch (ArrayCell (xs @ [length h])) ?h1"
  have p: "push ch c h = (True, ?h')"
    using xs by (simp add: push_def alloc_def)
  have se: "sameExcept ch h ?h'"
    by (auto simp: sameExcept_def load_overwrite load_append)
  have "changesAt ?h' xs = Some cs" using se xs cs by (rule changesAt_sameExcept)
  moreover have "load ?h' (length h) = Some (ChangeCell c)"
    using lt by (simp add: load_overwrite load_new)
  ultimately have "changesAt ?h' (xs @ [length h]) = Some (cs @ [c])"
    by (rule changesAt_snoc)
  moreover have "load ?h' ch = Some (ArrayCell (xs @ [length h]))"
    using lt by (simp add: load_overwrite)
  ultimately have "changeArrayAt ?h' ch = Some (cs @ [c])"
    by (simp add: changeArrayAt_def)
  with p se show ?thesis by blast
qed

lemma listingAt_sameExcept:
  "sameExcept ch h h' \<Longrightarrow> changeArrayAt h ch = Some cs \<Longrightarrow> listingAt h a = Some l \<Longrightarrow>
   listingAt h' a = Some l"
proof -
  assume se: "sameExcept ch h h'" and c: "changeArrayAt h ch = Some cs"
    and l: "listingAt h a = Some l"
  from l have la: "load h a = Some (ListingCell l)"
    by (auto simp: listingAt_def split: option.splits cell.splits)
  moreover from c obtain xs where "load h ch = Some (ArrayCell xs)"
    by (auto simp: changeArrayAt_def split: option.splits cell.splits)
  ultimately have "a \<noteq> ch" by auto
  with se la have "load h' a = Some (ListingCell l)" by (simp add: sameExcept_def)
  then show ?thesis by (simp add: listingAt_def)
qed

lemma listed_sameExcept:
  assumes "sameExcept ch h h'" and "changeArrayAt h ch = Some cs" and "listed h es"
  shows "listed h' es \<and> entryListings h' es = entryListings h es"
proof -
  have "listingAt h' a = listingAt h a" if "listingAt h a \<noteq> None" for a
    using that listingAt_sameExcept [OF assms(1,2)] by auto
  then show ?thesis
    using assms(3) by (auto simp: listed_def entryListings_def list_all_iff)
qed

lemma Map_get_entryListings:
  "Map_get (entryListings h es) k = map_option (\<lambda>a. the (listingAt h a)) (Map_get es k)"
  by (induction es) (auto simp: Map_get_def entryListings_def)

lemma Map_has_entryListings: "Map_has (entryListings h es) k = Map_has es k"
  by (force simp: Map_has_def entryListings_def)

lemma Map_get_listed:
  "listed h es \<Longrightarrow> Map_get es k = Some a \<Longrightarrow> \<exists>l. load h a = Some (ListingCell l) \<and> listingAt h a = Some l"
proof -
  assume "listed h es" and "Map_get es k = Some a"
  then have "(k, a) \<in> set es" by (simp add: Map_get_def map_of_SomeD)
  with \<open>listed h es\<close> have "listingAt h a \<noteq> None"
    by (auto simp: listed_def list_all_iff)
  then show ?thesis
    by (auto simp: listingAt_def split: option.splits cell.splits)
qed

lemma priceLoop_Cons:
  "priceLoop old ((k, n) # es) cs =
     priceLoop old es
       (case Map_get old k of
          Some ot \<Rightarrow> if price ot \<noteq> price n then cs @ [PRICE_CHANGE k (price ot) (price n)] else cs
        | None \<Rightarrow> cs)"
  by (simp add: priceLoop_def)

lemma sectionLoop_Cons:
  "sectionLoop old ((k, n) # es) cs =
     sectionLoop old es (if \<not> Map_has old k then cs @ [NEW_SECTION k (price n)] else cs)"
  by (simp add: sectionLoop_def)

lemma priceLoop_h_changes:
  "changeArrayAt h ch = Some cs \<Longrightarrow> listed h oes \<Longrightarrow> listed h nes \<Longrightarrow>
   \<exists>h'. priceLoop_h h oes ch nes = (True, h')
      \<and> changeArrayAt h' ch = Some (priceLoop (entryListings h oes) (entryListings h nes) cs)
      \<and> sameExcept ch h h'"
proof (induction nes arbitrary: h cs)
  case Nil
  then show ?case by (simp add: entryListings_def priceLoop_def sameExcept_refl)
next
  case (Cons e nes)
  obtain k n where e: "e = (k, n)" by (cases e)
  from Cons.prems(3) e obtain newTicket where n: "load h n = Some (ListingCell newTicket)"
    and n': "listingAt h n = Some newTicket" and rest: "listed h nes"
    by (auto simp: listed_def listingAt_def split: option.splits cell.splits)
  have el: "entryListings h ((k, n) # nes) = (k, newTicket) # entryListings h nes"
    using n' by (simp add: entryListings_def)
  show ?case
  proof (cases "Map_get oes k")
    case None
    from Cons.IH [OF Cons.prems(1,2) rest] None show ?thesis
      unfolding e by (simp add: el priceLoop_Cons Map_get_entryListings)
  next
    case (Some ot)
    from Map_get_listed [OF Cons.prems(2) Some] obtain oldTicket
      where o: "load h ot = Some (ListingCell oldTicket)" and o': "listingAt h ot = Some oldTicket"
      by blast
    show ?thesis
    proof (cases "price oldTicket \<noteq> price newTicket")
      case False
      from Cons.IH [OF Cons.prems(1,2) rest] Some o o' n False show ?thesis
        unfolding e by (simp add: el priceLoop_Cons Map_get_entryListings)
    next
      case True
      let ?c = "PRICE_CHANGE k (price oldTicket) (price newTicket)"
      from push_changes [OF Cons.prems(1), of ?c] obtain h1
        where p: "push ch ?c h = (True, h1)" and c1: "changeArrayAt h1 ch = Some (cs @ [?c])"
        and s1: "sameExcept ch h h1" by blast
      note lo = listed_sameExcept [OF s1 Cons.prems(1) Cons.prems(2)]
      note ln = listed_sameExcept [OF s1 Cons.prems(1) rest]
      from Cons.IH [OF c1 conjunct1 [OF lo] conjunct1 [OF ln]] obtain h'
        where r: "priceLoop_h h1 oes ch nes = (True, h')"
        and c': "changeArrayAt h' ch =
                  Some (priceLoop (entryListings h1 oes) (entryListings h1 nes) (cs @ [?c]))"
        and s': "sameExcept ch h1 h'" by blast
      have "priceLoop_h h oes ch (e # nes) = (True, h')"
        using e Some o n True p r by simp
      moreover have "changeArrayAt h' ch =
          Some (priceLoop (entryListings h oes) (entryListings h (e # nes)) cs)"
        using c' lo ln Some o' True unfolding e
        by (simp add: el priceLoop_Cons Map_get_entryListings)
      moreover have "sameExcept ch h h'" using s1 s' by (rule sameExcept_trans)
      ultimately show ?thesis by blast
    qed
  qed
qed

lemma sectionLoop_h_changes:
  "changeArrayAt h ch = Some cs \<Longrightarrow> listed h nes \<Longrightarrow>
   \<exists>h'. sectionLoop_h h oes ch nes = (True, h')
      \<and> changeArrayAt h' ch = Some (sectionLoop (entryListings h oes) (entryListings h nes) cs)
      \<and> sameExcept ch h h'"
proof (induction nes arbitrary: h cs)
  case Nil
  then show ?case by (simp add: entryListings_def sectionLoop_def sameExcept_refl)
next
  case (Cons e nes)
  obtain k n where e: "e = (k, n)" by (cases e)
  from Cons.prems(2) e obtain newTicket where n: "load h n = Some (ListingCell newTicket)"
    and n': "listingAt h n = Some newTicket" and rest: "listed h nes"
    by (auto simp: listed_def listingAt_def split: option.splits cell.splits)
  have el: "entryListings h ((k, n) # nes) = (k, newTicket) # entryListings h nes"
    using n' by (simp add: entryListings_def)
  show ?case
  proof (cases "Map_has oes k")
    case True
    from Cons.IH [OF Cons.prems(1) rest] True show ?thesis
      unfolding e by (simp add: el sectionLoop_Cons Map_has_entryListings)
  next
    case False
    let ?c = "NEW_SECTION k (price newTicket)"
    from push_changes [OF Cons.prems(1), of ?c] obtain h1
      where p: "push ch ?c h = (True, h1)" and c1: "changeArrayAt h1 ch = Some (cs @ [?c])"
      and s1: "sameExcept ch h h1" by blast
    note ln = listed_sameExcept [OF s1 Cons.prems(1) rest]
    from Cons.IH [OF c1 conjunct1 [OF ln]] obtain h'
      where r: "sectionLoop_h h1 oes ch nes = (True, h')"
      and c': "changeArrayAt h' ch =
                Some (sectionLoop (entryListings h1 oes) (entryListings h1 nes) (cs @ [?c]))"
      and s': "sameExcept ch h1 h'" by blast
    have "sectionLoop_h h oes ch (e # nes) = (True, h')"
      using e False n p r by simp
    moreover have "sectionLoop (entryListings h1 oes) (entryListings h1 nes) (cs @ [?c]) =
        sectionLoop (entryListings h oes) (entryListings h (e # nes)) cs"
    proof -
      have "sectionLoop old1 es1 acc = sectionLoop old2 es1 acc"
        if "\<And>k. Map_has old1 k = Map_has old2 k" for old1 old2 :: "(string \<times> listing) list"
          and es1 acc
        using that by (simp add: sectionLoop_def)
      from this [of "entryListings h1 oes" "entryListings h oes"]
      show ?thesis
        using ln False unfolding e by (simp add: el sectionLoop_Cons Map_has_entryListings)
    qed
    moreover have "sameExcept ch h h'" using s1 s' by (rule sameExcept_trans)
    ultimately show ?thesis using c' by auto
  qed
qed


lemma Map_set_values:
  "map (\<lambda>(k, v). (k, f v)) (Map_set m k v) = Map_set (map (\<lambda>(k, v). (k, f v)) m) k (f v)"
  by (induction m) auto

lemma foldl_Map_set_values:
  "map (\<lambda>(k, v). (k, f v)) (foldl (\<lambda>m (k, v). Map_set m k v) m kvs) =
   foldl (\<lambda>m (k, v). Map_set m k v) (map (\<lambda>(k, v). (k, f v)) m) (map (\<lambda>(k, v). (k, f v)) kvs)"
  by (induction kvs arbitrary: m) (auto simp: Map_set_values)

lemma new_Map_values:
  "map (\<lambda>(k, v). (k, f v)) (new_Map kvs) = new_Map (map (\<lambda>(k, v). (k, f v)) kvs)"
  by (simp add: new_Map_def foldl_Map_set_values)

lemma Map_set_subset: "set (Map_set m k v) \<subseteq> insert (k, v) (set m)"
  by (induction m) (auto split: if_splits)

lemma foldl_Map_set_subset:
  "set (foldl (\<lambda>m (k, v). Map_set m k v) m kvs) \<subseteq> set m \<union> set kvs"
proof (induction kvs arbitrary: m)
  case Nil
  then show ?case by simp
next
  case (Cons p kvs)
  obtain k v where p: "p = (k, v)" by (cases p)
  from Cons.IH [of "Map_set m k v"] Map_set_subset [of m k v] p show ?case
    by auto
qed

lemma new_Map_subset: "set (new_Map kvs) \<subseteq> set kvs"
  using foldl_Map_set_subset [of "[]" kvs] by (simp add: new_Map_def)

lemma listingsAt_map:
  "listingsAt h ts = Some ls \<Longrightarrow>
   map (\<lambda>a. the (listingAt h a)) ts = ls \<and> list_all (\<lambda>a. listingAt h a \<noteq> None) ts"
proof (induction ts arbitrary: ls)
  case Nil
  then show ?case by simp
next
  case (Cons a ts)
  from Cons.prems obtain l ls' where l: "load h a = Some (ListingCell l)"
    and r: "listingsAt h ts = Some ls'" and ls: "ls = l # ls'"
    by (auto split: option.splits cell.splits)
  from l have "listingAt h a = Some l" by (simp add: listingAt_def)
  with Cons.IH [OF r] ls show ?case by simp
qed

lemma ticketMap_entryListings:
  assumes "listingsAt h ts = Some ls"
  shows "entryListings h (new_Map (zip (map sectionRow ls) ts)) = ticketMap ls"
    and "listed h (new_Map (zip (map sectionRow ls) ts))"
proof -
  note m = listingsAt_map [OF assms]
  have "map (\<lambda>(k, a). (k, the (listingAt h a))) (zip (map sectionRow ls) ts) =
        zip (map sectionRow ls) (map (\<lambda>a. the (listingAt h a)) ts)"
    by (simp add: zip_map2 case_prod_unfold)
  also have "\<dots> = map (\<lambda>t. (sectionRow t, t)) ls"
    using m by (simp add: zip_map1 zip_same_conv_map)
  finally show "entryListings h (new_Map (zip (map sectionRow ls) ts)) = ticketMap ls"
    by (simp add: entryListings_def new_Map_values ticketMap_def)
  have "snd ` set (new_Map (zip (map sectionRow ls) ts)) \<subseteq> set ts"
  proof
    fix a assume "a \<in> snd ` set (new_Map (zip (map sectionRow ls) ts))"
    then obtain k where "(k, a) \<in> set (new_Map (zip (map sectionRow ls) ts))" by auto
    with new_Map_subset [of "zip (map sectionRow ls) ts"]
    have "(k, a) \<in> set (zip (map sectionRow ls) ts)" by blast
    then show "a \<in> set ts" by (rule set_zip_rightD)
  qed
  with m show "listed h (new_Map (zip (map sectionRow ls) ts))"
    by (auto simp: listed_def list_all_iff)
qed

text \<open>
  On a store that holds the two payloads, the detector on the store returns an array that
  reads back as the list of changes which \<open>detectChanges\<close> computes from the payloads.
\<close>

lemma detectChanges_h_refines:
  assumes A: "payloadAt h A = Some pa" and B: "payloadAt h B = Some pb"
  shows "\<exists>r h'. detectChanges_h h (Some A) B = (Some r, h')
           \<and> changeArrayAt h' r = Some (detectChanges (Some pa) pb)"
proof -
  let ?ch = "length h"
  let ?h1 = "h @ [ArrayCell []]"
  have a1: "alloc (ArrayCell []) h = (?ch, ?h1)" by (simp add: alloc_def)
  have k1: "keeps (length h) h ?h1" by (simp add: keeps_def)
  have c1: "load ?h1 ?ch = Some (ArrayCell [])" by (rule load_new)
  from A obtain ta where la: "load h A = Some (PayloadCell ta)"
    by (auto simp: payloadAt_def split: option.splits cell.splits)
  from B obtain tb where lb: "load h B = Some (PayloadCell tb)"
    by (auto simp: payloadAt_def split: option.splits cell.splits)
  note la1 = keeps_load [OF k1 la] and lb1 = keeps_load [OF k1 lb]
  show ?thesis
  proof (cases "ta = None \<or> tb = None")
    case True
    then have "tickets pa = None \<or> tickets pb = None"
      using A B la lb by (auto simp: payloadAt_def split: option.splits cell.splits)
    then have "detectChanges (Some pa) pb = []"
      by (auto simp: detectChanges_def split: option.splits)
    moreover have "detectChanges_h h (Some A) B = (Some ?ch, ?h1)"
      using True a1 la1 lb1 by (auto simp: detectChanges_h_def split: option.splits)
    moreover have "changeArrayAt ?h1 ?ch = Some []"
      using c1 by (simp add: changeArrayAt_def)
    ultimately show ?thesis by simp
  next
    case False
    then obtain ota nta where ta: "ta = Some ota" and tb: "tb = Some nta" by auto
    from A la ta obtain tsa lsa where arra: "load h ota = Some (ArrayCell tsa)"
      and lsa: "listingsAt h tsa = Some lsa" and pa: "pa = \<lparr>tickets = Some lsa\<rparr>"
      by (auto simp: payloadAt_def split: option.splits cell.splits)
    from B lb tb obtain tsb lsb where arrb: "load h nta = Some (ArrayCell tsb)"
      and lsb: "listingsAt h tsb = Some lsb" and pb: "pb = \<lparr>tickets = Some lsb\<rparr>"
      by (auto simp: payloadAt_def split: option.splits cell.splits)
    let ?oes = "new_Map (zip (map sectionRow lsa) tsa)"
    let ?nes = "new_Map (zip (map sectionRow lsb) tsb)"
    from ticketMap_h_entries [OF keeps_load [OF k1 arra] keeps_listingsAt [OF k1 lsa]]
    obtain mo h2 where t2: "ticketMap_h ?h1 ota = (Some mo, h2)"
      and k2: "keeps (length ?h1) ?h1 h2" and e2: "entriesOf h2 mo = Some ?oes"
      by blast
    have k02: "keeps (length h) h h2"
      using k1 keeps_mono [OF _ k2, of "length h"] by (auto intro: keeps_trans)
    from ticketMap_h_entries [OF keeps_load [OF k02 arrb] keeps_listingsAt [OF k02 lsb]]
    obtain mn h3 where t3: "ticketMap_h h2 nta = (Some mn, h3)"
      and k3: "keeps (length h2) h2 h3" and e3: "entriesOf h3 mn = Some ?nes"
      by blast
    have k03: "keeps (length h) h h3"
      using k02 keeps_mono [OF _ k3, of "length h"] k02 by (auto intro: keeps_trans simp: keeps_def)
    from e2 have "load h2 mo = Some (MapCell ?oes)"
      by (auto simp: entriesOf_def split: option.splits cell.splits)
    from keeps_load [OF k3 this] have e3o: "entriesOf h3 mo = Some ?oes"
      by (simp add: entriesOf_def)
    have "load h2 ?ch = Some (ArrayCell [])" using k2 c1 by (rule keeps_load)
    with k3 have "load h3 ?ch = Some (ArrayCell [])" by (rule keeps_load)
    then have c3: "changeArrayAt h3 ?ch = Some []" by (simp add: changeArrayAt_def)
    note la3 = keeps_listingsAt [OF k03 lsa] and lb3 = keeps_listingsAt [OF k03 lsb]
    note oes = ticketMap_entryListings [OF la3] and nes = ticketMap_entryListings [OF lb3]
    from priceLoop_h_changes [OF c3 oes(2) nes(2)] obtain h4
      where p4: "priceLoop_h h3 ?oes ?ch ?nes = (True, h4)"
      and c4: "changeArrayAt h4 ?ch = Some (priceLoop (ticketMap lsa) (ticketMap lsb) [])"
      and s4: "sameExcept ?ch h3 h4"
      by (auto simp: oes(1) nes(1))
    note o4 = listed_sameExcept [OF s4 c3 oes(2)] and n4 = listed_sameExcept [OF s4 c3 nes(2)]
    from sectionLoop_h_changes [OF c4 conjunct1 [OF n4], of ?oes] obtain h5
      where p5: "sectionLoop_h h4 ?oes ?ch ?nes = (True, h5)"
      and c5: "changeArrayAt h5 ?ch =
                 Some (sectionLoop (ticketMap lsa) (ticketMap lsb)
                         (priceLoop (ticketMap lsa) (ticketMap lsb) []))"
      by (auto simp: o4 n4 oes(1) nes(1))
    have "detectChanges_h h (Some A) B = (Some ?ch, h5)"
      using a1 la1 lb1 ta tb t2 t3 e3 e3o p4 p5 by (simp add: detectChanges_h_def)
    moreover have "detectChanges (Some pa) pb =
        sectionLoop (ticketMap lsa) (ticketMap lsb) (priceLoop (ticketMap lsa) (ticketMap lsb) [])"
      using pa pb by (simp add: detectChanges_def Let_def)
    ultimately show ?thesis using c5 by simp
  qed
qed

subsection \<open>The inputs after the call\<close>

text \<open>
  C7. The detector changes none of the objects that exist when it is called: after the
  call the store is the old store, cell for cell, with new objects behind it. So the two
  snapshots, whether they are different objects, the same object or share parts, read back
  as before, tickets arrays and listings included.
\<close>

theorem detectChanges_keeps_inputs:
  "take (length h) (snd (detectChanges_h h oldData newData)) = h
   \<and> (payloadAt h a = Some p \<longrightarrow>
        payloadAt (snd (detectChanges_h h oldData newData)) a = Some p)"
proof -
  have k: "keeps (length h) h (snd (detectChanges_h h oldData newData))"
    by (rule keeps_detectChanges_h [of h oldData newData "fst (detectChanges_h h oldData newData)"])
       simp
  then have "take (length h) (snd (detectChanges_h h oldData newData)) = h"
    by (simp add: keeps_def)
  with keeps_payloadAt [OF k] show ?thesis by simp
qed

theorem detectChanges_keeps_inputs_witness:
  "payloadAt store0 2 = Some \<lparr>tickets = Some [listingA]\<rparr>
   \<and> payloadAt (snd (detectChanges_h store0 (Some 2) 6)) 2 = Some \<lparr>tickets = Some [listingA]\<rparr>
   \<and> take (length store0) (snd (detectChanges_h store0 (Some 2) 6)) = store0
   \<and> fst (detectChanges_h store0 (Some 2) 6) = Some 7
   \<and> changeArrayAt (snd (detectChanges_h store0 (Some 2) 6)) 7 =
       Some [PRICE_CHANGE ''Sec 101 Row A'' ''$50'' ''$60'',
             NEW_SECTION ''Sec 102 Row B'' ''$40'']"
proof -
  have p: "payloadAt store0 2 = Some \<lparr>tickets = Some [listingA]\<rparr>"
    by (simp add: payloadAt_def store0_def load_def)
  have r: "fst (detectChanges_h store0 (Some 2) 6) = Some 7
   \<and> changeArrayAt (snd (detectChanges_h store0 (Some 2) 6)) 7 =
       Some [PRICE_CHANGE ''Sec 101 Row A'' ''$50'' ''$60'',
             NEW_SECTION ''Sec 102 Row B'' ''$40'']"
    by code_simp
  from p r detectChanges_keeps_inputs [of store0 "Some 2" 6 2 "\<lparr>tickets = Some [listingA]\<rparr>"]
  show ?thesis by simp
qed

end
